theory Spec2Isabelle
  imports Main "HOL-Library.Word"
begin

unbundle bit_operations_syntax

section \<open>Byte-addressed memory\<close>

text \<open>
  The allocator of \<^verbatim>\<open>mem.c\<close> works on raw bytes: block headers sit at arbitrary byte
  addresses, and the code reads and writes 8-byte fields through casts. Memory is therefore
  a map from 64-bit addresses to bytes, and an 8-byte field is read and written in
  little-endian order (the code targets a 64-bit little-endian machine: 16-byte headers,
  64-bit guards). Address arithmetic wraps modulo \<open>2 ^ 64\<close>, as \<^verbatim>\<open>size_t\<close> and pointer
  arithmetic do on that machine.
\<close>

type_synonym addr = "64 word"
type_synonym byte = "8 word"
type_synonym memory = "addr \<Rightarrow> byte"

definition load64 :: "memory \<Rightarrow> addr \<Rightarrow> 64 word" where
  "load64 m a =
     ucast (m a) OR push_bit 8 (ucast (m (a + 1))) OR push_bit 16 (ucast (m (a + 2))) OR
     push_bit 24 (ucast (m (a + 3))) OR push_bit 32 (ucast (m (a + 4))) OR
     push_bit 40 (ucast (m (a + 5))) OR push_bit 48 (ucast (m (a + 6))) OR
     push_bit 56 (ucast (m (a + 7)))"

definition store64 :: "memory \<Rightarrow> addr \<Rightarrow> 64 word \<Rightarrow> memory" where
  "store64 m a v = (\<lambda>x. if x - a < 8 then ucast (drop_bit (8 * unat (x - a)) v) else m x)"

text \<open>\<^verbatim>\<open>memcpy(dst, src, n)\<close>: the \<open>n\<close> bytes at \<open>src\<close> are copied to \<open>dst\<close>.\<close>

definition memcpy :: "memory \<Rightarrow> addr \<Rightarrow> addr \<Rightarrow> 64 word \<Rightarrow> memory" where
  "memcpy m dst src n = (\<lambda>x. if x - dst < n then m (src + (x - dst)) else m x)"

section \<open>Constants and global state of \<^verbatim>\<open>mem.c\<close>\<close>

definition SECRET_SIZE :: "64 word" where
  "SECRET_SIZE = 8"

text \<open>
  \<^verbatim>\<open>sizeof(struct mem_free_block_s)\<close> and \<^verbatim>\<open>sizeof(struct mem_allocated_block_s)\<close>:
  two 8-byte fields each. The field \<^verbatim>\<open>size\<close> is at offset 0 of both; \<^verbatim>\<open>next\<close> and
  \<^verbatim>\<open>guard\<close> are at offset 8.
\<close>

definition MEM_FREE_BLOCK_SIZE :: "64 word" where
  "MEM_FREE_BLOCK_SIZE = 16"

definition MEM_ALL_BLOCK_SIZE :: "64 word" where
  "MEM_ALL_BLOCK_SIZE = 16"

definition MEM_MAX_BLOCK_SIZE :: "64 word" where
  "MEM_MAX_BLOCK_SIZE =
     (if MEM_FREE_BLOCK_SIZE > MEM_ALL_BLOCK_SIZE then MEM_FREE_BLOCK_SIZE else MEM_ALL_BLOCK_SIZE)"

definition MEM_MIN_BLOCK_SIZE :: "64 word" where
  "MEM_MIN_BLOCK_SIZE =
     (if MEM_FREE_BLOCK_SIZE < MEM_ALL_BLOCK_SIZE then MEM_FREE_BLOCK_SIZE else MEM_ALL_BLOCK_SIZE)"

definition MEM_FREE_ALL_DIFF :: "64 word" where
  "MEM_FREE_ALL_DIFF = - MEM_FREE_BLOCK_SIZE + MEM_ALL_BLOCK_SIZE"

definition off_next :: "64 word" where
  "off_next = 8"

definition off_guard :: "64 word" where
  "off_guard = 8"

text \<open>
  The globals. The variable \<^verbatim>\<open>free_block_list\<close> is addressed through
  \<^verbatim>\<open>mem_free_block_t **\<close> pointers (\<^verbatim>\<open>&free_block_list\<close>, \<^verbatim>\<open>&(**list)->next\<close>), so it
  lives in the same byte memory as the arena: \<open>free_block_list_addr\<close> is its address and
  its value is the 8 bytes stored there. The placement function is a function pointer; a
  placement function that does not return is the value \<open>None\<close>.
\<close>

record heap =
  mem :: memory
  free_block_list_addr :: addr
  memory_area :: addr
  MEM_SPACE_MIN :: addr
  MEM_SPACE_MAX :: addr
  secret_number :: "64 word"
  current_fit_function :: "memory \<Rightarrow> addr \<Rightarrow> 64 word \<Rightarrow> addr option"

datatype error = AssertionFailed

definition rd :: "heap \<Rightarrow> addr \<Rightarrow> 64 word" where
  "rd st a = load64 (mem st) a"

definition wr :: "heap \<Rightarrow> addr \<Rightarrow> 64 word \<Rightarrow> heap" where
  "wr st a v = st\<lparr>mem := store64 (mem st) a v\<rparr>"

section \<open>Placement policies\<close>

text \<open>The null pointer is the address 0. A loop that does not terminate yields \<open>None\<close>.\<close>

partial_function (option) mem_first_fit :: "memory \<Rightarrow> addr \<Rightarrow> 64 word \<Rightarrow> addr option" where
  "mem_first_fit m list sz =
     (if list \<noteq> 0 then
        (if load64 m list \<ge> sz then Some list
         else mem_first_fit m (load64 m (list + off_next)) sz)
      else Some 0)"

declare mem_first_fit.simps [code]

partial_function (option) best_fit_loop ::
  "memory \<Rightarrow> addr \<Rightarrow> 64 word \<Rightarrow> addr \<Rightarrow> 64 word \<Rightarrow> addr option" where
  "best_fit_loop m list sz best_fit best_size =
     (if list \<noteq> 0 then
        (if load64 m list \<ge> sz \<and> load64 m list < best_size
         then best_fit_loop m (load64 m (list + off_next)) sz list (load64 m list)
         else best_fit_loop m (load64 m (list + off_next)) sz best_fit best_size)
      else Some best_fit)"

declare best_fit_loop.simps [code]

definition mem_best_fit :: "memory \<Rightarrow> addr \<Rightarrow> 64 word \<Rightarrow> addr option" where
  "mem_best_fit m list sz = best_fit_loop m list sz 0 (- 1)"

partial_function (option) worst_fit_loop ::
  "memory \<Rightarrow> addr \<Rightarrow> 64 word \<Rightarrow> addr \<Rightarrow> 64 word \<Rightarrow> addr option" where
  "worst_fit_loop m list sz worst_fit worst_size =
     (if list \<noteq> 0 then
        (if load64 m list \<ge> sz \<and> load64 m list > worst_size
         then worst_fit_loop m (load64 m (list + off_next)) sz list (load64 m list)
         else worst_fit_loop m (load64 m (list + off_next)) sz worst_fit worst_size)
      else Some worst_fit)"

declare worst_fit_loop.simps [code]

definition mem_worst_fit :: "memory \<Rightarrow> addr \<Rightarrow> 64 word \<Rightarrow> addr option" where
  "mem_worst_fit m list sz = worst_fit_loop m list sz 0 0"

section \<open>Free-list primitives\<close>

text \<open>
  \<^verbatim>\<open>search_block(block, &list)\<close> advances the local \<^verbatim>\<open>list\<close> of its caller; the model
  returns its final value.
\<close>

partial_function (option) search_block :: "memory \<Rightarrow> addr \<Rightarrow> addr \<Rightarrow> addr option" where
  "search_block m block list =
     (if load64 m list \<noteq> 0 \<and> load64 m list < block
      then search_block m block (load64 m list + off_next)
      else Some list)"

declare search_block.simps [code]

definition remove_block :: "heap \<Rightarrow> addr \<Rightarrow> addr \<Rightarrow> heap" where
  "remove_block st block list =
     (if rd st list = block then
        (let st1 = wr st list (rd st (block + off_next));
             st2 = wr st1 (block + off_next) 0
         in st2)
      else st)"

definition insert_block :: "heap \<Rightarrow> addr \<Rightarrow> addr \<Rightarrow> heap" where
  "insert_block st block list =
     (let st1 =
        (if rd st list \<noteq> 0 then
           (if block + rd st block + MEM_FREE_BLOCK_SIZE = rd st list then
              (let sa = wr st block (rd st block + (MEM_FREE_BLOCK_SIZE + rd st (rd st list)));
                   sb = wr sa (block + off_next) (rd sa (rd sa list + off_next))
               in sb)
            else wr st (block + off_next) (rd st list))
         else wr st (block + off_next) 0);
          prev = list - off_next
      in
        if prev \<ge> memory_area st1 then
          (if prev + MEM_FREE_BLOCK_SIZE + rd st1 prev = block then
             (let sa = wr st1 prev (rd st1 prev + (MEM_FREE_BLOCK_SIZE + rd st1 block));
                  sb = wr sa (prev + off_next) (rd sa (block + off_next))
              in sb)
           else wr st1 (prev + off_next) block)
        else wr st1 list block)"

section \<open>Public operations\<close>

text \<open>
  \<^verbatim>\<open>mem_init\<close>: the arena's address and length come from the memory-space provider
  (\<^verbatim>\<open>mem_space_get_addr\<close>, \<^verbatim>\<open>mem_space_get_size\<close>), which are parameters here.
\<close>

definition mem_init :: "heap \<Rightarrow> addr \<Rightarrow> 64 word \<Rightarrow> heap" where
  "mem_init st0 area total_memory_size =
     (let st1 = st0\<lparr>memory_area := area,
                    MEM_SPACE_MIN := area + MEM_MIN_BLOCK_SIZE,
                    MEM_SPACE_MAX := area + total_memory_size - 1\<rparr>;
          st2 = wr st1 (free_block_list_addr st1) (memory_area st1);
          st3 = wr st2 (rd st2 (free_block_list_addr st2)) (total_memory_size - MEM_FREE_BLOCK_SIZE);
          st4 = wr st3 (rd st3 (free_block_list_addr st3) + off_next) 0
      in st4\<lparr>secret_number := 0xDEADBEEFFEEDFACE, current_fit_function := mem_first_fit\<rparr>)"

definition mem_set_fit_handler ::
  "heap \<Rightarrow> (memory \<Rightarrow> addr \<Rightarrow> 64 word \<Rightarrow> addr option) \<Rightarrow> heap" where
  "mem_set_fit_handler st mff = st\<lparr>current_fit_function := mff\<rparr>"

text \<open>
  \<^verbatim>\<open>mem_alloc\<close> returns the payload address (0 for \<^verbatim>\<open>NULL\<close>) and the new state.
\<close>

definition mem_alloc :: "heap \<Rightarrow> 64 word \<Rightarrow> (addr \<times> heap) option" where
  "mem_alloc st size0 =
     (let sz = size0 + SECRET_SIZE in
      case current_fit_function st (mem st) (rd st (free_block_list_addr st))
             (sz + MEM_FREE_ALL_DIFF) of
        None \<Rightarrow> None
      | Some block \<Rightarrow>
          if block = 0 then Some (0, st)
          else
            (case search_block (mem st) block (free_block_list_addr st) of
               None \<Rightarrow> None
             | Some list \<Rightarrow>
                 (let st1 = remove_block st block list;
                      split = \<not> (rd st1 block - sz - MEM_FREE_ALL_DIFF
                                    \<le> MEM_MAX_BLOCK_SIZE + SECRET_SIZE);
                      sz' = (if split then sz else rd st1 block - MEM_FREE_ALL_DIFF);
                      st2 =
                        (if split then
                           (let new_free_block = block + sz + MEM_ALL_BLOCK_SIZE;
                                sa = wr st1 new_free_block (rd st1 block - sz - MEM_ALL_BLOCK_SIZE);
                                sb = wr sa (new_free_block + off_next) 0
                            in insert_block sb new_free_block list)
                         else st1);
                      st3 = wr st2 block sz';
                      st4 = wr st3 (block + off_guard) (block XOR secret_number st3);
                      st5 = wr st4 (block + MEM_ALL_BLOCK_SIZE + sz' - SECRET_SIZE)
                               (block XOR secret_number st4)
                  in Some (block + MEM_ALL_BLOCK_SIZE, st5))))"

text \<open>
  \<^verbatim>\<open>mem_free\<close>: a failed \<^verbatim>\<open>assert\<close> aborts the process, which is the value
  \<open>Inl AssertionFailed\<close>.
\<close>

definition mem_free :: "heap \<Rightarrow> addr \<Rightarrow> (error + heap) option" where
  "mem_free st zone =
     (if zone = 0 \<or> zone < MEM_SPACE_MIN st \<or> zone \<ge> MEM_SPACE_MAX st then Some (Inr st)
      else
        (let block_to_free = zone - MEM_ALL_BLOCK_SIZE;
             guard = block_to_free XOR secret_number st
         in
           if rd st (block_to_free + off_guard) \<noteq> guard then Some (Inl AssertionFailed)
           else if rd st (block_to_free + MEM_ALL_BLOCK_SIZE + rd st block_to_free - SECRET_SIZE)
                     \<noteq> guard
           then Some (Inl AssertionFailed)
           else
             (let new_free_block = block_to_free;
                  st1 = wr st new_free_block (rd st block_to_free - MEM_FREE_ALL_DIFF);
                  st2 = wr st1 (new_free_block + off_next) 0
              in
                case search_block (mem st2) new_free_block (free_block_list_addr st2) of
                  None \<Rightarrow> None
                | Some list \<Rightarrow> Some (Inr (insert_block st2 new_free_block list)))))"

text \<open>
  \<^verbatim>\<open>mem_get_size\<close> has no \<^verbatim>\<open>assert\<close> and no loop; its result has the type of the other
  operations' outcomes, so that its treatment of a bad guard can be compared with theirs.
\<close>

definition mem_get_size :: "heap \<Rightarrow> addr \<Rightarrow> error + 64 word" where
  "mem_get_size st zone =
     (if zone = 0 \<or> zone < MEM_SPACE_MIN st \<or> zone \<ge> MEM_SPACE_MAX st then Inr 0
      else
        (let block = zone - MEM_ALL_BLOCK_SIZE;
             guard = block XOR secret_number st
         in
           if rd st (block + off_guard) \<noteq> guard then Inr 0
           else if rd st (block + MEM_ALL_BLOCK_SIZE + rd st block - SECRET_SIZE) \<noteq> guard
           then Inr 0
           else Inr (rd st block - SECRET_SIZE)))"

text \<open>
  \<^verbatim>\<open>mem_show\<close>: the visitor \<^verbatim>\<open>print\<close> is called with a payload address, a sz and a
  free flag; the model returns the calls in order.
\<close>

type_synonym visit = "addr \<times> 64 word \<times> int"

partial_function (option) show_allocated ::
  "heap \<Rightarrow> addr \<Rightarrow> addr \<Rightarrow> (visit list \<times> addr) option" where
  "show_allocated st stop allocated_current =
     (if allocated_current \<noteq> stop \<and> allocated_current < MEM_SPACE_MAX st then
        Option.bind
          (show_allocated st stop
             (allocated_current + MEM_ALL_BLOCK_SIZE + rd st allocated_current))
          (\<lambda>(vs, final).
             Some ((allocated_current + MEM_ALL_BLOCK_SIZE,
                    rd st allocated_current - SECRET_SIZE, 0) # vs, final))
      else Some ([], allocated_current))"

declare show_allocated.simps [code]

partial_function (option) show_free :: "heap \<Rightarrow> addr \<Rightarrow> visit list option" where
  "show_free st free_current =
     (if free_current \<noteq> 0 then
        Option.bind
          (show_allocated st (rd st (free_current + off_next))
             (free_current + MEM_FREE_BLOCK_SIZE + rd st free_current))
          (\<lambda>(vs, final).
             Option.bind (show_free st (rd st (free_current + off_next)))
               (\<lambda>ws. Some ((free_current + MEM_FREE_BLOCK_SIZE,
                              rd st free_current - SECRET_SIZE, 1) # vs @ ws)))
      else Some [])"

declare show_free.simps [code]

definition mem_show :: "heap \<Rightarrow> visit list option" where
  "mem_show st =
     Option.bind
       (show_allocated st (rd st (free_block_list_addr st)) (memory_area st))
       (\<lambda>(vs, final).
          Option.bind (show_free st (rd st (free_block_list_addr st)))
            (\<lambda>ws. Some (vs @ ws)))"

text \<open>
  \<^verbatim>\<open>mem_realloc\<close> returns the payload address (0 for \<^verbatim>\<open>NULL\<close>) and the new state, or
  aborts on a failed \<^verbatim>\<open>assert\<close>.
\<close>

definition mem_realloc :: "heap \<Rightarrow> addr \<Rightarrow> 64 word \<Rightarrow> (error + addr \<times> heap) option" where
  "mem_realloc st zone size0 =
     (if zone = 0 then map_option Inr (mem_alloc st size0)
      else if zone < MEM_SPACE_MIN st \<or> zone \<ge> MEM_SPACE_MAX st then Some (Inr (0, st))
      else if size0 = 0 then
        (case mem_free st zone of
           None \<Rightarrow> None
         | Some (Inl e) \<Rightarrow> Some (Inl e)
         | Some (Inr st') \<Rightarrow> map_option Inr (mem_alloc st' size0))
      else
        (let sz = size0 + SECRET_SIZE;
             block_to_realloc = zone - MEM_ALL_BLOCK_SIZE;
             guard = block_to_realloc XOR secret_number st
         in
           if rd st (block_to_realloc + off_guard) \<noteq> guard then Some (Inl AssertionFailed)
           else if rd st (block_to_realloc + MEM_ALL_BLOCK_SIZE + rd st block_to_realloc
                            - SECRET_SIZE) \<noteq> guard
           then Some (Inl AssertionFailed)
           else if sz = rd st block_to_realloc then Some (Inr (zone, st))
           else
             (let right_block = block_to_realloc + rd st block_to_realloc + MEM_ALL_BLOCK_SIZE in
              case search_block (mem st) right_block (free_block_list_addr st) of
                None \<Rightarrow> None
              | Some list \<Rightarrow>
                  if sz < rd st block_to_realloc then
                    (if right_block = rd st list then
                       (let new_free_block = block_to_realloc + sz + MEM_ALL_BLOCK_SIZE;
                            v = rd st right_block + (rd st block_to_realloc - sz);
                            s1 = wr st new_free_block v;
                            s2 = wr s1 (new_free_block + off_next) 0;
                            s3 = remove_block s2 right_block list;
                            s4 = insert_block s3 new_free_block list;
                            s5 = wr s4 block_to_realloc sz;
                            s6 = wr s5 (block_to_realloc + MEM_ALL_BLOCK_SIZE + sz - SECRET_SIZE)
                                   (block_to_realloc XOR secret_number s5)
                        in Some (Inr (zone, s6)))
                     else
                       (if rd st block_to_realloc - sz \<le> MEM_MAX_BLOCK_SIZE + SECRET_SIZE
                        then Some (Inr (zone, st))
                        else
                          (let new_free_block = block_to_realloc + sz + MEM_ALL_BLOCK_SIZE;
                               v = rd st block_to_realloc - sz - MEM_FREE_BLOCK_SIZE;
                               s1 = wr st new_free_block v;
                               s2 = wr s1 (new_free_block + off_next) 0;
                               s3 = insert_block s2 new_free_block list;
                               s4 = wr s3 block_to_realloc sz;
                               s5 = wr s4 (block_to_realloc + MEM_ALL_BLOCK_SIZE + sz
                                             - SECRET_SIZE)
                                      (block_to_realloc XOR secret_number s4)
                           in Some (Inr (zone, s5)))))
                  else if right_block \<noteq> rd st list
                          \<or> rd st right_block + MEM_FREE_BLOCK_SIZE < sz - rd st block_to_realloc
                  then
                    (case mem_alloc st (sz - SECRET_SIZE) of
                       None \<Rightarrow> None
                     | Some (result, s1) \<Rightarrow>
                         if result = 0 then Some (Inr (0, s1))
                         else
                           (let s2 = s1\<lparr>mem := memcpy (mem s1) result zone
                                                   (rd s1 block_to_realloc - SECRET_SIZE)\<rparr>
                            in case mem_free s2 zone of
                                 None \<Rightarrow> None
                               | Some (Inl e) \<Rightarrow> Some (Inl e)
                               | Some (Inr s3) \<Rightarrow> Some (Inr (result, s3))))
                  else
                    (let s1 = remove_block st right_block list in
                     if rd s1 right_block - sz + rd s1 block_to_realloc + MEM_FREE_BLOCK_SIZE
                          \<le> MEM_MAX_BLOCK_SIZE + SECRET_SIZE
                     then
                       (let s2 = wr s1 block_to_realloc
                                   (rd s1 block_to_realloc
                                      + (rd s1 right_block + MEM_FREE_BLOCK_SIZE));
                            s3 = wr s2 (block_to_realloc + MEM_ALL_BLOCK_SIZE
                                          + rd s2 block_to_realloc - SECRET_SIZE)
                                   (block_to_realloc XOR secret_number s2)
                        in Some (Inr (zone, s3)))
                     else
                       (let new_free_block = block_to_realloc + sz + MEM_ALL_BLOCK_SIZE;
                            s2 = wr s1 new_free_block
                                   (rd s1 right_block - sz + rd s1 block_to_realloc);
                            s3 = wr s2 (new_free_block + off_next) 0;
                            s4 = wr s3 block_to_realloc sz;
                            s5 = wr s4 (block_to_realloc + MEM_ALL_BLOCK_SIZE
                                          + rd s4 block_to_realloc - SECRET_SIZE)
                                   (block_to_realloc XOR secret_number s4)
                        in Some (Inr (zone, insert_block s5 new_free_block list)))))))"

section \<open>Specification vocabulary\<close>

text \<open>
  Two 8-byte fields at \<open>a\<close> and \<open>b\<close> do not overlap (in the address space modulo
  \<open>2 ^ 64\<close>).
\<close>

definition disj8 :: "addr \<Rightarrow> addr \<Rightarrow> bool" where
  "disj8 a b \<longleftrightarrow> 8 \<le> b - a \<and> 8 \<le> a - b"

text \<open>The free blocks: the addresses reached from a list pointer through \<^verbatim>\<open>next\<close>.\<close>

partial_function (option) free_blocks :: "heap \<Rightarrow> addr \<Rightarrow> addr list option" where
  "free_blocks st p =
     (if p \<noteq> 0 then
        Option.bind (free_blocks st (rd st (p + off_next))) (\<lambda>ps. Some (p # ps))
      else Some [])"

declare free_blocks.simps [code]

definition is_free_visit :: "visit \<Rightarrow> bool" where
  "is_free_visit v \<longleftrightarrow> snd (snd v) = 1"

definition free_reported :: "heap \<Rightarrow> addr \<Rightarrow> visit list \<Rightarrow> bool" where
  "free_reported st p vs \<longleftrightarrow>
     (\<exists>ps. free_blocks st p = Some ps \<and>
        filter is_free_visit vs =
          map (\<lambda>b. (b + MEM_FREE_BLOCK_SIZE, rd st b - SECRET_SIZE, 1)) ps)"

text \<open>A state before \<^verbatim>\<open>mem_init\<close>, used for concrete instances: memory is all zero and the
  variable \<^verbatim>\<open>free_block_list\<close> is at address \<open>0x100\<close>.\<close>

definition zero_heap :: heap where
  "zero_heap = \<lparr>mem = (\<lambda>_. 0), free_block_list_addr = 0x100, memory_area = 0,
     MEM_SPACE_MIN = 0, MEM_SPACE_MAX = 0, secret_number = 0,
     current_fit_function = mem_first_fit\<rparr>"

text \<open>
  The free list in memory: \<open>flist m p xs\<close> says that following \<^verbatim>\<open>next\<close> from the pointer
  \<open>p\<close> visits exactly the blocks \<open>xs\<close> (address and stored size of each) and then reaches
  \<^verbatim>\<open>NULL\<close>.
\<close>

fun flist :: "memory \<Rightarrow> addr \<Rightarrow> (addr \<times> 64 word) list \<Rightarrow> bool" where
  "flist m p [] \<longleftrightarrow> p = 0"
| "flist m p ((a, s) # xs) \<longleftrightarrow>
     p = a \<and> a \<noteq> 0 \<and> load64 m a = s \<and> flist m (load64 m (a + off_next)) xs"

text \<open>The best-fit scan as a function of the list of blocks and the running best.\<close>

fun best_of :: "(addr \<times> 64 word) list \<Rightarrow> 64 word \<Rightarrow> addr \<Rightarrow> 64 word \<Rightarrow> addr" where
  "best_of [] req bf bs = bf"
| "best_of (x # xs) req bf bs =
     (if snd x \<ge> req \<and> snd x < bs then best_of xs req (fst x) (snd x)
      else best_of xs req bf bs)"

text \<open>A memory holding three free blocks of sizes 50, 30 and 30.\<close>

definition three_blocks :: memory where
  "three_blocks =
     store64 (store64 (store64 (store64 (store64 (store64 (\<lambda>_. 0)
       0x1000 50) 0x1008 0x1100) 0x1100 30) 0x1108 0x1200) 0x1200 30) 0x1208 0"

text \<open>A memory holding one free block whose stored size is \<^verbatim>\<open>SIZE_MAX\<close>.\<close>

definition max_size_block :: memory where
  "max_size_block = store64 (store64 (\<lambda>_. 0) 0x1000 (- 1)) 0x1008 0"

text \<open>
  A segment of the free list: following \<^verbatim>\<open>next\<close> from \<open>p\<close> visits the blocks \<open>xs\<close> and
  arrives at the pointer \<open>q\<close>.
\<close>

fun fseg :: "memory \<Rightarrow> addr \<Rightarrow> (addr \<times> 64 word) list \<Rightarrow> addr \<Rightarrow> bool" where
  "fseg m p [] q \<longleftrightarrow> p = q"
| "fseg m p ((a, s) # xs) q \<longleftrightarrow>
     p = a \<and> a \<noteq> 0 \<and> load64 m a = s \<and> fseg m (load64 m (a + off_next)) xs q"

text \<open>
  The blocks \<open>xs\<close> lie inside the address range from \<open>lo\<close> to \<open>hi\<close>, in ascending order,
  and no block ends where the next one begins (a block at \<open>a\<close> with size field \<open>s\<close>
  occupies the 16-byte header and \<open>s\<close> bytes).
\<close>

fun chain :: "nat \<Rightarrow> nat \<Rightarrow> (addr \<times> 64 word) list \<Rightarrow> bool" where
  "chain lo hi [] \<longleftrightarrow> True"
| "chain lo hi ((a, s) # xs) \<longleftrightarrow>
     lo \<le> unat a \<and> unat a + 16 + unat s \<le> hi \<and> chain (unat a + 16 + unat s + 1) hi xs"

text \<open>The pointer cell reached by \<^verbatim>\<open>search_block\<close> after passing the blocks \<open>xs\<close>.\<close>

fun slot_after :: "addr \<Rightarrow> (addr \<times> 64 word) list \<Rightarrow> addr" where
  "slot_after slot [] = slot"
| "slot_after slot ((a, s) # xs) = slot_after (a + off_next) xs"

text \<open>The first address after the blocks \<open>xs\<close> (and the gap of at least one byte).\<close>

fun cend :: "nat \<Rightarrow> (addr \<times> 64 word) list \<Rightarrow> nat" where
  "cend lo [] = lo"
| "cend lo ((a, s) # xs) = cend (unat a + 16 + unat s + 1) xs"

text \<open>The 8-byte cell at \<open>c\<close> overlaps no header of the blocks \<open>xs\<close>.\<close>

definition cell_clear :: "addr \<Rightarrow> (addr \<times> 64 word) list \<Rightarrow> bool" where
  "cell_clear c xs \<longleftrightarrow> (\<forall>x\<in>set xs. disj8 c (fst x) \<and> disj8 c (fst x + 8))"

text \<open>
  The state of the free list between operations: the head variable lies below the arena
  (at least 8 bytes above address 0, so that the predecessor computed from it in
  \<^verbatim>\<open>insert_block\<close> does not wrap around), the arena does not reach the end of the address
  space, and the free list in memory consists of the blocks \<open>xs\<close>, which lie inside the
  arena in ascending order with no two of them adjacent.
\<close>

definition free_list_ok :: "heap \<Rightarrow> (addr \<times> 64 word) list \<Rightarrow> bool" where
  "free_list_ok st xs \<longleftrightarrow>
     8 \<le> unat (free_block_list_addr st) \<and>
     unat (free_block_list_addr st) + 8 \<le> unat (memory_area st) \<and>
     unat (memory_area st) \<le> unat (MEM_SPACE_MAX st) \<and>
     unat (MEM_SPACE_MAX st) + 1 < 2 ^ 64 \<and>
     MEM_SPACE_MIN st = memory_area st + MEM_MIN_BLOCK_SIZE \<and>
     flist (mem st) (rd st (free_block_list_addr st)) xs \<and>
     chain (unat (memory_area st)) (unat (MEM_SPACE_MAX st) + 1) xs"

text \<open>The worst-fit scan as a function of the list of blocks and the running worst.\<close>

fun worst_of :: "(addr \<times> 64 word) list \<Rightarrow> 64 word \<Rightarrow> addr \<Rightarrow> 64 word \<Rightarrow> addr" where
  "worst_of [] req wb wsz = wb"
| "worst_of (x # xs) req wb wsz =
     (if snd x \<ge> req \<and> snd x > wsz then worst_of xs req (fst x) (snd x)
      else worst_of xs req wb wsz)"

text \<open>The three placement policies of \<^verbatim>\<open>mem.c\<close>.\<close>

definition provided_policy :: "(memory \<Rightarrow> addr \<Rightarrow> 64 word \<Rightarrow> addr option) \<Rightarrow> bool" where
  "provided_policy f \<longleftrightarrow> f = mem_first_fit \<or> f = mem_best_fit \<or> f = mem_worst_fit"

text \<open>
  The free list after the block at \<open>a\<close> with size field \<open>sz\<close> has been inserted between
  \<open>pre\<close> and \<open>post\<close>, when the block is not adjacent to the last block of \<open>pre\<close>: it
  absorbs the first block of \<open>post\<close> if that one starts where the block ends.
\<close>

fun joined_right :: "addr \<Rightarrow> 64 word \<Rightarrow> (addr \<times> 64 word) list \<Rightarrow> (addr \<times> 64 word) list" where
  "joined_right a sz [] = [(a, sz)]"
| "joined_right a sz ((r, t) # post) =
     (if unat r = unat a + 16 + unat sz then (a, sz + (MEM_FREE_BLOCK_SIZE + t)) # post
      else (a, sz) # (r, t) # post)"

text \<open>\<^verbatim>\<open>mem_free(mem_alloc(k))\<close>: the result of the allocation is released at once.\<close>

definition free_alloc :: "heap \<Rightarrow> 64 word \<Rightarrow> (error + heap) option" where
  "free_alloc st k =
     (case mem_alloc st k of None \<Rightarrow> None | Some (p, st1) \<Rightarrow> mem_free st1 p)"

text \<open>The free blocks of a state with their stored sizes, from the head variable.\<close>

definition free_list_addrs :: "heap \<Rightarrow> addr list option" where
  "free_list_addrs st = free_blocks st (rd st (free_block_list_addr st))"

definition free_list_blocks :: "heap \<Rightarrow> (addr \<times> 64 word) list option" where
  "free_list_blocks st = map_option (map (\<lambda>a. (a, rd st a))) (free_list_addrs st)"

text \<open>
  A run of the public operations on a fresh arena of 4096 bytes at \<open>area\<close>: three blocks
  of 100 bytes are allocated and the second is freed (\<open>second_freed\<close> returns the payload
  addresses of the first and the third and the state); then the first is resized to \<open>k\<close>
  bytes (\<open>resized_first\<close>). The outcome of a state is its free list and the size fields of
  the two blocks still allocated.
\<close>

definition second_freed :: "addr \<Rightarrow> (addr \<times> addr \<times> heap) option" where
  "second_freed area =
     (case mem_alloc (mem_init zero_heap area 4096) 100 of
        None \<Rightarrow> None
      | Some (p, s1) \<Rightarrow>
          (case mem_alloc s1 100 of
             None \<Rightarrow> None
           | Some (q, s2) \<Rightarrow>
               (case mem_alloc s2 100 of
                  None \<Rightarrow> None
                | Some (r, s3) \<Rightarrow>
                    (case mem_free s3 q of
                       Some (Inr s4) \<Rightarrow> Some (p, r, s4)
                     | _ \<Rightarrow> None))))"

definition resized_first :: "addr \<Rightarrow> 64 word \<Rightarrow> (addr \<times> addr \<times> heap) option" where
  "resized_first area k =
     (case second_freed area of
        None \<Rightarrow> None
      | Some (p, r, s4) \<Rightarrow>
          (case mem_realloc s4 p k of Some (Inr (p', s5)) \<Rightarrow> Some (p', r, s5) | _ \<Rightarrow> None))"

definition outcome ::
  "(addr \<times> addr \<times> heap) option \<Rightarrow> ((addr \<times> 64 word) list \<times> 64 word \<times> 64 word) option" where
  "outcome run =
     (case run of
        None \<Rightarrow> None
      | Some (p, r, st) \<Rightarrow>
          (case free_list_blocks st of
             None \<Rightarrow> None
           | Some fl \<Rightarrow>
               Some (fl, rd st (p - MEM_ALL_BLOCK_SIZE), rd st (r - MEM_ALL_BLOCK_SIZE))))"

text \<open>The free list is strictly ascending by block address.\<close>

definition free_list_ascending ::
  "(addr \<times> addr \<times> heap) option \<Rightarrow> bool option" where
  "free_list_ascending run =
     (case outcome run of
        None \<Rightarrow> None
      | Some (fl, s1, s3) \<Rightarrow> Some (sorted_wrt (<) (map fst fl)))"

text \<open>
  The bytes accounted for by the blocks: header and size of every free block and of the two
  allocated blocks.
\<close>

definition covered_bytes :: "(addr \<times> addr \<times> heap) option \<Rightarrow> nat option" where
  "covered_bytes run =
     (case outcome run of
        None \<Rightarrow> None
      | Some (fl, s1, s3) \<Rightarrow>
          Some (sum_list (map (\<lambda>b. unat MEM_FREE_BLOCK_SIZE + unat (snd b)) fl)
                + (unat MEM_ALL_BLOCK_SIZE + unat s1) + (unat MEM_ALL_BLOCK_SIZE + unat s3)))"

text \<open>
  The block layout of the arena: the blocks \<open>bs\<close> (address, size field, free or not) lie
  back to back from \<open>lo\<close> to \<open>hi\<close>, each with its size field in memory.
\<close>

type_synonym block = "addr \<times> 64 word \<times> bool"

fun tiles :: "heap \<Rightarrow> nat \<Rightarrow> block list \<Rightarrow> nat \<Rightarrow> bool" where
  "tiles st lo [] hi \<longleftrightarrow> lo = hi"
| "tiles st lo ((a, s, fr) # bs) hi \<longleftrightarrow>
     unat a = lo \<and> rd st a = s \<and> tiles st (lo + 16 + unat s) bs hi"

definition is_free_block :: "block \<Rightarrow> bool" where
  "is_free_block b \<longleftrightarrow> snd (snd b)"

definition frees :: "block list \<Rightarrow> (addr \<times> 64 word) list" where
  "frees bs = map (\<lambda>b. (fst b, fst (snd b))) (filter is_free_block bs)"

text \<open>
  The arena is tiled by the blocks \<open>bs\<close>, and the free list consists of the free ones among
  them, in order.
\<close>

definition heap_layout :: "heap \<Rightarrow> block list \<Rightarrow> bool" where
  "heap_layout st bs \<longleftrightarrow>
     0 < unat (memory_area st) \<and> unat (MEM_SPACE_MAX st) + 1 < 2 ^ 64 \<and>
     tiles st (unat (memory_area st)) bs (unat (MEM_SPACE_MAX st) + 1) \<and>
     flist (mem st) (rd st (free_block_list_addr st)) (frees bs)"

text \<open>What \<^verbatim>\<open>mem_show\<close> passes to the visitor for a block.\<close>

definition visit_of :: "block \<Rightarrow> visit" where
  "visit_of b =
     (fst b + MEM_ALL_BLOCK_SIZE, fst (snd b) - SECRET_SIZE, if snd (snd b) then 1 else 0)"

text \<open>
  Address ranges (start, length) that follow one another from \<open>lo\<close> to \<open>hi\<close> without gap
  or overlap.
\<close>

fun ranges_tile :: "nat \<Rightarrow> (nat \<times> nat) list \<Rightarrow> nat \<Rightarrow> bool" where
  "ranges_tile lo [] hi \<longleftrightarrow> lo = hi"
| "ranges_tile lo ((b, len) # rs) hi \<longleftrightarrow> b = lo \<and> ranges_tile (lo + len) rs hi"

text \<open>
  The range of a visit as the claim has it: from the start of the block (the payload
  address minus the header), the reported size plus the header. And the range of the whole
  block, which also has the 8 bytes of the guard.
\<close>

definition claimed_range :: "visit \<Rightarrow> nat \<times> nat" where
  "claimed_range v =
     (unat (fst v - MEM_ALL_BLOCK_SIZE), unat (fst (snd v)) + unat MEM_ALL_BLOCK_SIZE)"

definition block_range :: "visit \<Rightarrow> nat \<times> nat" where
  "block_range v =
     (unat (fst v - MEM_ALL_BLOCK_SIZE),
      unat (fst (snd v) + SECRET_SIZE) + unat MEM_ALL_BLOCK_SIZE)"

definition covers_as_claimed :: "heap \<Rightarrow> bool" where
  "covers_as_claimed st =
     (case mem_show st of
        None \<Rightarrow> False
      | Some vs \<Rightarrow>
          ranges_tile (unat (memory_area st)) (map claimed_range vs)
            (unat (MEM_SPACE_MAX st) + 1))"

text \<open>The byte at \<open>x\<close> lies in the 8-byte cell at \<open>c\<close>.\<close>

definition in_cell :: "addr \<Rightarrow> addr \<Rightarrow> bool" where
  "in_cell x c \<longleftrightarrow> x - c < 8"

text \<open>
  An allocated block at \<open>p\<close> with size field \<open>psz\<close> in a state whose free list is \<open>xs\<close>:
  it lies inside the arena, overlaps no free block, its header and trailer hold the guard
  of \<open>p\<close>, and its size covers at least the trailer.
\<close>

definition allocated_block :: "heap \<Rightarrow> (addr \<times> 64 word) list \<Rightarrow> addr \<Rightarrow> 64 word \<Rightarrow> bool" where
  "allocated_block st xs p psz \<longleftrightarrow>
     unat (memory_area st) \<le> unat p \<and>
     unat p + 16 + unat psz \<le> unat (MEM_SPACE_MAX st) + 1 \<and>
     8 \<le> unat psz \<and>
     rd st p = psz \<and>
     rd st (p + off_guard) = p XOR secret_number st \<and>
     rd st (p + MEM_ALL_BLOCK_SIZE + psz - SECRET_SIZE) = p XOR secret_number st \<and>
     list_all (\<lambda>b. unat (fst b) + 16 + unat (snd b) \<le> unat p \<or>
                    unat p + 16 + unat psz \<le> unat (fst b)) xs"

text \<open>
  The size of the free block that starts at address \<open>R\<close>, if the (address-ordered) free
  list has one.
\<close>

definition free_size_at :: "(addr \<times> 64 word) list \<Rightarrow> addr \<Rightarrow> 64 word option" where
  "free_size_at xs R =
     (case dropWhile (\<lambda>b. fst b < R) xs of
        [] \<Rightarrow> None
      | (b, t) # _ \<Rightarrow> if b = R then Some t else None)"

text \<open>
  The block at \<open>p\<close> cannot grow in place to the effective size \<open>e\<close>: its right neighbour
  is not free, or is free and too small.
\<close>

definition cannot_grow_in_place ::
  "(addr \<times> 64 word) list \<Rightarrow> addr \<Rightarrow> 64 word \<Rightarrow> 64 word \<Rightarrow> bool" where
  "cannot_grow_in_place xs p psz e =
     (case free_size_at xs (p + psz + MEM_ALL_BLOCK_SIZE) of
        None \<Rightarrow> True
      | Some t \<Rightarrow> t + MEM_FREE_BLOCK_SIZE < e - psz)"

text \<open>
  The byte at \<open>x\<close> belongs to the head variable at \<open>H\<close> or to the header of one of the
  free blocks \<open>xs\<close>.
\<close>

definition list_byte :: "addr \<Rightarrow> (addr \<times> 64 word) list \<Rightarrow> addr \<Rightarrow> bool" where
  "list_byte H xs x \<longleftrightarrow>
     in_cell x H \<or> list_ex (\<lambda>b. in_cell x (fst b) \<or> in_cell x (fst b + off_next)) xs"

text \<open>
  A heap with a 4096-byte arena at \<open>0x1000\<close> that holds two allocated blocks of size 16
  (at \<open>0x1000\<close> and \<open>0x1020\<close>, each with its guard in the header and in the trailer)
  followed by one free block; the payload of the first block starts with the bytes of
  \<open>0x1122334455667788\<close>.
\<close>

definition two_blocks_heap :: heap where
  "two_blocks_heap =
     \<lparr>mem = store64 (store64 (store64 (store64 (store64 (store64 (store64 (store64 (store64
              (store64 (\<lambda>_. 0)
                0x100 0x1040)
                0x1000 16) 0x1008 (0x1000 XOR 0xDEADBEEFFEEDFACE))
                0x1010 0x1122334455667788) 0x1018 (0x1000 XOR 0xDEADBEEFFEEDFACE))
                0x1020 16) 0x1028 (0x1020 XOR 0xDEADBEEFFEEDFACE))
                0x1038 (0x1020 XOR 0xDEADBEEFFEEDFACE))
                0x1040 4016) 0x1048 0,
      free_block_list_addr = 0x100, memory_area = 0x1000,
      MEM_SPACE_MIN = 0x1010, MEM_SPACE_MAX = 0x1FFF,
      secret_number = 0xDEADBEEFFEEDFACE, current_fit_function = mem_first_fit\<rparr>"

text \<open>\<^verbatim>\<open>mem_get_size(mem_alloc(k))\<close>: the address returned by the allocation and the size reported
  for it.\<close>

definition size_after_alloc :: "heap \<Rightarrow> 64 word \<Rightarrow> (addr \<times> (error + 64 word)) option" where
  "size_after_alloc st k =
     (case mem_alloc st k of None \<Rightarrow> None | Some (p, st1) \<Rightarrow> Some (p, mem_get_size st1 p))"

section \<open>Memory lemmas\<close>

lemma bit_byte_select:
  fixes v :: "64 word"
  shows "(k \<le> n \<and> n - k < 64 \<and> n - k < 8 \<and> bit v (k + (n - k))) = (k \<le> n \<and> n < k + 8 \<and> bit v n)"
  by (cases "k \<le> n") auto

lemma bit_bytes_join:
  fixes v :: "64 word"
  assumes "n < 64"
  shows "(n < 8 \<and> bit v n \<or>
          8 \<le> n \<and> n - 8 < 64 \<and> n - 8 < 8 \<and> bit v (8 + (n - 8)) \<or>
          16 \<le> n \<and> n - 16 < 64 \<and> n - 16 < 8 \<and> bit v (16 + (n - 16)) \<or>
          24 \<le> n \<and> n - 24 < 64 \<and> n - 24 < 8 \<and> bit v (24 + (n - 24)) \<or>
          32 \<le> n \<and> n - 32 < 64 \<and> n - 32 < 8 \<and> bit v (32 + (n - 32)) \<or>
          40 \<le> n \<and> n - 40 < 64 \<and> n - 40 < 8 \<and> bit v (40 + (n - 40)) \<or>
          48 \<le> n \<and> n - 48 < 64 \<and> n - 48 < 8 \<and> bit v (48 + (n - 48)) \<or>
          56 \<le> n \<and> n - 56 < 64 \<and> n - 56 < 8 \<and> bit v (56 + (n - 56))) =
         bit v n"
  unfolding bit_byte_select using assms by auto

lemma load64_store64_same: "load64 (store64 m a v) a = v"
  apply (simp add: load64_def store64_def)
  apply (rule bit_word_eqI)
  apply (simp only: bit_simps)
  apply (simp add: bit_bytes_join)
  done

lemma disj8_bounds:
  fixes a b :: "64 word"
  assumes "disj8 a b"
  shows "8 \<le> unat (b - a) \<and> unat (b - a) + 8 \<le> 2 ^ 64"
proof -
  define d where "d = b - a"
  have ab: "a - b = 0 - d" by (simp add: d_def)
  have d8: "8 \<le> unat d" and m8: "8 \<le> unat (0 - d)"
    using assms by (simp_all add: disj8_def d_def ab [symmetric] word_le_nat_alt)
  have "unat (0 - d) = (if unat d \<le> 0 then 0 - unat d else 0 + 2 ^ 64 - unat d)"
    using unat_sub_if_size [of 0 d] by (simp add: word_size)
  with d8 have "unat (0 - d) = 2 ^ 64 - unat d" by simp
  with m8 have "8 \<le> (2 :: nat) ^ 64 - unat d" by simp
  then have "unat d + 8 \<le> 2 ^ 64" by linarith
  with d8 show ?thesis by (simp add: d_def)
qed

lemma disj8_shift:
  fixes a b i :: "64 word"
  assumes "disj8 a b" "i < 8"
  shows "\<not> (b + i - a < 8)"
proof -
  have d: "8 \<le> unat (b - a)" "unat (b - a) + 8 \<le> 2 ^ 64"
    using disj8_bounds [OF assms(1)] by simp_all
  have i: "unat i < 8" using assms(2) by (simp add: word_less_nat_alt)
  have e: "b + i - a = (b - a) + i" by simp
  have "unat (b - a) + unat i < 2 ^ LENGTH(64)" using d(2) i by simp
  then have "unat ((b - a) + i) = unat (b - a) + unat i"
    by (simp only: unat_add_lem [THEN iffD1])
  with d(1) show ?thesis unfolding e by (simp add: word_less_nat_alt)
qed

lemma store64_other: "disj8 a b \<Longrightarrow> i < 8 \<Longrightarrow> store64 m a v (b + i) = m (b + i)"
  using disj8_shift [of a b i] by (simp add: store64_def)

lemma load64_store64_disj: "disj8 a b \<Longrightarrow> load64 (store64 m a v) b = load64 m b"
  using store64_other [of a b 0 m v]
  by (simp add: load64_def store64_other)

lemma disj8_sym: "disj8 a b \<longleftrightarrow> disj8 b a"
  by (auto simp: disj8_def)

lemma disj8_natI1:
  fixes a b :: "64 word"
  assumes "unat a + 8 \<le> unat b" "unat b + 8 \<le> 2 ^ 64"
  shows "disj8 a b"
proof -
  have "unat (b - a) = unat b - unat a"
    using assms(1) by (simp add: unat_sub word_le_nat_alt)
  then have 1: "8 \<le> unat (b - a)" using assms(1) by simp
  have "unat (a - b) = unat a + 2 ^ 64 - unat b"
    using assms(1) unat_sub_if_size [of a b] by (simp add: word_size)
  then have 2: "8 \<le> unat (a - b)" using assms(2) by simp
  show ?thesis using 1 2 by (simp add: disj8_def word_le_nat_alt)
qed

lemma disj8_natI:
  "unat a + 8 \<le> unat b \<and> unat b + 8 \<le> 2 ^ 64 \<or> unat b + 8 \<le> unat a \<and> unat a + 8 \<le> 2 ^ 64
   \<Longrightarrow> disj8 a b"
  using disj8_natI1 [of a b] disj8_natI1 [of b a] disj8_sym [of a b] by blast

lemma disj8_plus8 [simp]: "disj8 a (a + 8)" "disj8 (a + 8) a"
  by (simp_all add: disj8_def)

lemma rd_wr_same [simp]: "rd (wr st a v) a = v"
  by (simp add: rd_def wr_def load64_store64_same)

lemma rd_wr_disj: "disj8 a b \<Longrightarrow> rd (wr st a v) b = rd st b"
  by (simp add: rd_def wr_def load64_store64_disj)

lemma wr_fields [simp]:
  "free_block_list_addr (wr st a v) = free_block_list_addr st"
  "memory_area (wr st a v) = memory_area st"
  "MEM_SPACE_MIN (wr st a v) = MEM_SPACE_MIN st"
  "MEM_SPACE_MAX (wr st a v) = MEM_SPACE_MAX st"
  "secret_number (wr st a v) = secret_number st"
  "current_fit_function (wr st a v) = current_fit_function st"
  by (simp_all add: wr_def)

lemmas consts_simps =
  SECRET_SIZE_def MEM_FREE_BLOCK_SIZE_def MEM_ALL_BLOCK_SIZE_def MEM_MAX_BLOCK_SIZE_def
  MEM_MIN_BLOCK_SIZE_def MEM_FREE_ALL_DIFF_def off_next_def off_guard_def

lemma show_allocated_flags:
  "show_allocated st stop cur = Some r \<Longrightarrow> filter is_free_visit (fst r) = []"
  apply (rule show_allocated.raw_induct
           [rotated 1, where P = "\<lambda>_ _ _ r. filter is_free_visit (fst r) = []"])
   apply assumption
  apply (auto split: if_splits bind_splits simp: is_free_visit_def)
  done

lemma show_free_step:
  assumes IH: "\<And>st q ws. f st q = Some ws \<Longrightarrow> free_reported st q ws"
    and body:
      "(if p \<noteq> 0 then
          Option.bind
            (show_allocated st (rd st (p + off_next)) (p + MEM_FREE_BLOCK_SIZE + rd st p))
            (\<lambda>(vs, final).
               Option.bind (f st (rd st (p + off_next)))
                 (\<lambda>ws. Some ((p + MEM_FREE_BLOCK_SIZE, rd st p - SECRET_SIZE, 1) # vs @ ws)))
        else Some []) = Some vs"
  shows "free_reported st p vs"
proof (cases "p = 0")
  case True
  with body show ?thesis by (simp add: free_reported_def free_blocks.simps)
next
  case False
  with body obtain as fin ws where
    a: "show_allocated st (rd st (p + off_next)) (p + MEM_FREE_BLOCK_SIZE + rd st p) = Some (as, fin)"
    and w: "f st (rd st (p + off_next)) = Some ws"
    and v: "vs = (p + MEM_FREE_BLOCK_SIZE, rd st p - SECRET_SIZE, 1) # as @ ws"
    by (auto split: bind_splits)
  from IH [OF w] obtain ps where
    ps: "free_blocks st (rd st (p + off_next)) = Some ps"
    "filter is_free_visit ws = map (\<lambda>b. (b + MEM_FREE_BLOCK_SIZE, rd st b - SECRET_SIZE, 1)) ps"
    unfolding free_reported_def by blast
  have "free_blocks st p = Some (p # ps)"
    using False ps(1) by (subst free_blocks.simps) simp
  moreover have "filter is_free_visit vs =
      map (\<lambda>b. (b + MEM_FREE_BLOCK_SIZE, rd st b - SECRET_SIZE, 1)) (p # ps)"
    using v ps(2) show_allocated_flags [OF a] by (simp add: is_free_visit_def)
  ultimately show ?thesis unfolding free_reported_def by blast
qed

lemma show_free_reports: "show_free st p = Some vs \<Longrightarrow> free_reported st p vs"
  apply (rule show_free.raw_induct [rotated 1, where P = free_reported])
   apply assumption
  apply (rule show_free_step)
   apply assumption+
  done

lemma mem_init_fields [simp]:
  "free_block_list_addr (mem_init st0 area n) = free_block_list_addr st0"
  "memory_area (mem_init st0 area n) = area"
  "MEM_SPACE_MIN (mem_init st0 area n) = area + 16"
  "MEM_SPACE_MAX (mem_init st0 area n) = area + n - 1"
  "secret_number (mem_init st0 area n) = 0xDEADBEEFFEEDFACE"
  "current_fit_function (mem_init st0 area n) = mem_first_fit"
  by (simp_all add: mem_init_def Let_def consts_simps)

lemma rd_update_other [simp]:
  "rd (st\<lparr>secret_number := s\<rparr>) a = rd st a"
  "rd (st\<lparr>current_fit_function := f\<rparr>) a = rd st a"
  "rd (st\<lparr>memory_area := b\<rparr>) a = rd st a"
  "rd (st\<lparr>MEM_SPACE_MIN := b\<rparr>) a = rd st a"
  "rd (st\<lparr>MEM_SPACE_MAX := b\<rparr>) a = rd st a"
  by (simp_all add: rd_def)

lemma mem_init_reads:
  assumes "disj8 (free_block_list_addr st0) area" "disj8 (free_block_list_addr st0) (area + 8)"
  shows "rd (mem_init st0 area n) (free_block_list_addr st0) = area"
    and "rd (mem_init st0 area n) area = n - 16"
    and "rd (mem_init st0 area n) (area + 8) = 0"
  using assms
  by (simp_all add: mem_init_def Let_def consts_simps rd_wr_disj disj8_sym [of area]
        disj8_sym [of "area + 8"])

lemma mem_show_init:
  assumes "area \<noteq> 0"
    and "disj8 (free_block_list_addr st0) area" "disj8 (free_block_list_addr st0) (area + 8)"
  shows "mem_show (mem_init st0 area n) = Some [(area + 16, n - 16 - 8, 1)]"
proof -
  let ?st = "mem_init st0 area n"
  have a1: "show_allocated ?st area area = Some ([], area)"
    by (subst show_allocated.simps) simp
  have lt: "\<not> (area + n < area + n - 1 \<and> area + n \<noteq> 0)"
  proof -
    have "x \<noteq> 0 \<Longrightarrow> \<not> x < x - 1" for x :: "64 word"
      by (simp add: word_less_nat_alt unat_minus_one)
    then show ?thesis by blast
  qed
  have a2: "show_allocated ?st 0 (area + 16 + (n - 16)) = Some ([], area + n)"
    using lt by (subst show_allocated.simps) auto
  have f0: "show_free ?st 0 = Some []"
    by (subst show_free.simps) simp
  have f1: "show_free ?st area = Some [(area + 16, n - 16 - 8, 1)]"
    using assms(1) a2 f0 mem_init_reads [OF assms(2,3)]
    by (subst show_free.simps) (simp add: consts_simps)
  show ?thesis
    using a1 f1 mem_init_reads [OF assms(2,3)] by (simp add: mem_show_def)
qed

section \<open>Traversal: what \<^verbatim>\<open>mem_show\<close> reports for free blocks\<close>



section \<open>Guard mismatch on the size query\<close>

text \<open>
  C4 as stated (the size query signals a guard mismatch fatally, like free and resize) fails:
  on the initial heap the address \<open>0x1010\<close> lies in the arena, the header there carries no
  guard, \<^verbatim>\<open>mem_free\<close> aborts and \<^verbatim>\<open>mem_get_size\<close> returns 0.
\<close>

theorem mem_get_size_guard_mismatch_counterexample:
  "rd (mem_init zero_heap 0x1000 4096) (0x1010 - MEM_ALL_BLOCK_SIZE + off_guard)
     \<noteq> (0x1010 - MEM_ALL_BLOCK_SIZE) XOR secret_number (mem_init zero_heap 0x1000 4096) \<and>
   mem_free (mem_init zero_heap 0x1000 4096) 0x1010 = Some (Inl AssertionFailed) \<and>
   mem_get_size (mem_init zero_heap 0x1000 4096) 0x1010 = Inr 0"
proof -
  have d: "disj8 (free_block_list_addr zero_heap) 0x1000"
    "disj8 (free_block_list_addr zero_heap) (0x1000 + 8)"
    by (simp_all add: zero_heap_def disj8_def)
  have g: "rd (mem_init zero_heap 0x1000 4096) 0x1008 = 0"
    using mem_init_reads(3) [OF d, of 4096] by simp
  show ?thesis
    by (simp add: mem_free_def mem_get_size_def Let_def consts_simps g)
qed

text \<open>
  C4, amended. For a payload address inside the arena whose header guard or trailer differs
  from the guard of its block, \<^verbatim>\<open>mem_get_size\<close> returns 0 without aborting, while
  \<^verbatim>\<open>mem_free\<close> and \<^verbatim>\<open>mem_realloc\<close> abort on the failed assertion.
\<close>

theorem guard_mismatch_treatment:
  assumes "zone \<noteq> 0" "\<not> zone < MEM_SPACE_MIN st" "\<not> zone \<ge> MEM_SPACE_MAX st"
    and "rd st (zone - MEM_ALL_BLOCK_SIZE + off_guard)
           \<noteq> (zone - MEM_ALL_BLOCK_SIZE) XOR secret_number st \<or>
         rd st (zone - MEM_ALL_BLOCK_SIZE + MEM_ALL_BLOCK_SIZE
                  + rd st (zone - MEM_ALL_BLOCK_SIZE) - SECRET_SIZE)
           \<noteq> (zone - MEM_ALL_BLOCK_SIZE) XOR secret_number st"
  shows "mem_get_size st zone = Inr 0 \<and>
         mem_free st zone = Some (Inl AssertionFailed) \<and>
         mem_realloc st zone sz = Some (Inl AssertionFailed)"
  using assms
  by (auto simp: mem_get_size_def mem_free_def mem_realloc_def Let_def)

theorem guard_mismatch_treatment_witness:
  "mem_get_size (mem_init zero_heap 0x1000 4096) 0x1010 = Inr 0 \<and>
   mem_free (mem_init zero_heap 0x1000 4096) 0x1010 = Some (Inl AssertionFailed) \<and>
   mem_realloc (mem_init zero_heap 0x1000 4096) 0x1010 5 = Some (Inl AssertionFailed)"
proof -
  have d: "disj8 (free_block_list_addr zero_heap) 0x1000"
    "disj8 (free_block_list_addr zero_heap) (0x1000 + 8)"
    by (simp_all add: zero_heap_def disj8_def)
  have g: "rd (mem_init zero_heap 0x1000 4096) 0x1008 = 0"
    using mem_init_reads(3) [OF d, of 4096] by simp
  show ?thesis
    using guard_mismatch_treatment [of "0x1010" "mem_init zero_heap 0x1000 4096" 5]
    by (simp add: consts_simps g)
qed

section \<open>Best fit\<close>

lemma best_fit_loop_list:
  "flist m p xs \<Longrightarrow> best_fit_loop m p req bf bs = Some (best_of xs req bf bs)"
proof (induction xs arbitrary: p bf bs)
  case Nil
  then show ?case by (subst best_fit_loop.simps) simp
next
  case (Cons x xs)
  obtain a s where x: "x = (a, s)" by (cases x)
  from Cons.prems have p: "p = a" "a \<noteq> 0" "load64 m a = s"
    and t: "flist m (load64 m (a + off_next)) xs"
    by (simp_all add: x)
  show ?case
    unfolding p(1) x
    by (subst best_fit_loop.simps) (simp add: p(2,3) Cons.IH [OF t])
qed

lemma best_of_cases:
  "(best_of xs req bf bs = bf \<and> (\<forall>x\<in>set xs. \<not> (req \<le> snd x \<and> snd x < bs))) \<or>
   (\<exists>pre a s post. xs = pre @ (a, s) # post \<and> best_of xs req bf bs = a \<and>
      req \<le> s \<and> s < bs \<and>
      (\<forall>x\<in>set pre. req \<le> snd x \<longrightarrow> s < snd x) \<and>
      (\<forall>x\<in>set post. req \<le> snd x \<longrightarrow> s \<le> snd x))"
proof (induction xs arbitrary: bf bs)
  case Nil
  then show ?case by simp
next
  case (Cons x xs)
  show ?case
  proof (cases "req \<le> snd x \<and> snd x < bs")
    case True
    from Cons.IH [of "fst x" "snd x"] show ?thesis
    proof (elim disjE conjE exE)
      assume "best_of xs req (fst x) (snd x) = fst x"
        and "\<forall>y\<in>set xs. \<not> (req \<le> snd y \<and> snd y < snd x)"
      then have "x # xs = [] @ (fst x, snd x) # xs \<and> best_of (x # xs) req bf bs = fst x \<and>
          req \<le> snd x \<and> snd x < bs \<and>
          (\<forall>y\<in>set []. req \<le> snd y \<longrightarrow> snd x < snd y) \<and>
          (\<forall>y\<in>set xs. req \<le> snd y \<longrightarrow> snd x \<le> snd y)"
        using True by (auto simp: not_less)
      then show ?thesis by blast
    next
      fix pre a s post
      assume "xs = pre @ (a, s) # post" "best_of xs req (fst x) (snd x) = a" "req \<le> s"
        "s < snd x" "\<forall>y\<in>set pre. req \<le> snd y \<longrightarrow> s < snd y"
        "\<forall>y\<in>set post. req \<le> snd y \<longrightarrow> s \<le> snd y"
      then have "x # xs = (x # pre) @ (a, s) # post \<and> best_of (x # xs) req bf bs = a \<and>
          req \<le> s \<and> s < bs \<and>
          (\<forall>y\<in>set (x # pre). req \<le> snd y \<longrightarrow> s < snd y) \<and>
          (\<forall>y\<in>set post. req \<le> snd y \<longrightarrow> s \<le> snd y)"
        using True by auto
      then show ?thesis by blast
    qed
  next
    case False
    from Cons.IH [of bf bs] show ?thesis
    proof (elim disjE conjE exE)
      assume "best_of xs req bf bs = bf" "\<forall>y\<in>set xs. \<not> (req \<le> snd y \<and> snd y < bs)"
      then show ?thesis using False by auto
    next
      fix pre a s post
      assume "xs = pre @ (a, s) # post" "best_of xs req bf bs = a" "req \<le> s"
        "s < bs" "\<forall>y\<in>set pre. req \<le> snd y \<longrightarrow> s < snd y"
        "\<forall>y\<in>set post. req \<le> snd y \<longrightarrow> s \<le> snd y"
      then have "x # xs = (x # pre) @ (a, s) # post \<and> best_of (x # xs) req bf bs = a \<and>
          req \<le> s \<and> s < bs \<and>
          (\<forall>y\<in>set (x # pre). req \<le> snd y \<longrightarrow> s < snd y) \<and>
          (\<forall>y\<in>set post. req \<le> snd y \<longrightarrow> s \<le> snd y)"
        using False by auto
      then show ?thesis by blast
    qed
  qed
qed

text \<open>
  C7 as stated (for every free list, best fit returns the smallest block of size \<open>\<ge> req\<close>
  and \<^verbatim>\<open>NULL\<close> only if none fits) fails: the scan starts with \<^verbatim>\<open>best_size = SIZE_MAX\<close> and
  compares strictly, so a block whose stored size is \<^verbatim>\<open>SIZE_MAX\<close> is never chosen. On the
  one-block list below the block fits a request of 1, first fit returns it, and best fit
  returns \<^verbatim>\<open>NULL\<close>.
\<close>

theorem mem_best_fit_max_size_counterexample:
  "flist max_size_block 0x1000 [(0x1000, - 1)] \<and> (1 :: 64 word) \<le> - 1 \<and>
   mem_best_fit max_size_block 0x1000 1 = Some 0 \<and>
   mem_first_fit max_size_block 0x1000 1 = Some 0x1000"
  by code_simp

text \<open>
  C7, amended. For every free list \<open>xs\<close> in memory and every request \<open>req\<close>,
  \<^verbatim>\<open>mem_best_fit\<close> returns \<^verbatim>\<open>NULL\<close> if no block has a size \<open>s\<close> with \<open>req \<le> s < SIZE_MAX\<close>;
  otherwise it returns a block of size \<open>s\<close> with \<open>req \<le> s < SIZE_MAX\<close> such that every fitting
  block before it in the list is strictly larger and every fitting block after it is at
  least as large: the first block of smallest fitting size. In particular the result never
  has size \<open>< req\<close>.
\<close>

theorem mem_best_fit_spec:
  assumes "flist m list xs"
  shows "(if \<forall>x\<in>set xs. snd x < req \<or> snd x = - 1 then mem_best_fit m list req = Some 0
          else \<exists>pre a s post. xs = pre @ (a, s) # post \<and> mem_best_fit m list req = Some a \<and>
                 req \<le> s \<and> s \<noteq> - 1 \<and>
                 (\<forall>x\<in>set pre. req \<le> snd x \<longrightarrow> s < snd x) \<and>
                 (\<forall>x\<in>set post. req \<le> snd x \<longrightarrow> s \<le> snd x))"
proof -
  have r: "mem_best_fit m list req = Some (best_of xs req 0 (- 1))"
    using best_fit_loop_list [OF assms(1)] by (simp add: mem_best_fit_def)
  have mx: "s < - 1 \<longleftrightarrow> s \<noteq> - 1" for s :: "64 word"
    using word_order.not_eq_extremum [of s] by simp
  show ?thesis
  proof (cases "\<forall>x\<in>set xs. snd x < req \<or> snd x = - 1")
    case True
    then have "\<forall>x\<in>set xs. \<not> (req \<le> snd x \<and> snd x < - 1)" by (auto simp: not_le mx)
    with best_of_cases [of xs req 0 "- 1"] have "best_of xs req 0 (- 1) = 0"
      by (elim disjE conjE exE) auto
    with True r show ?thesis by simp
  next
    case False
    then have "\<not> (\<forall>x\<in>set xs. \<not> (req \<le> snd x \<and> snd x < - 1))" by (auto simp: not_less mx)
    with best_of_cases [of xs req 0 "- 1"] obtain pre a s post where
      "xs = pre @ (a, s) # post" "best_of xs req 0 (- 1) = a" "req \<le> s" "s < - 1"
      "\<forall>x\<in>set pre. req \<le> snd x \<longrightarrow> s < snd x" "\<forall>x\<in>set post. req \<le> snd x \<longrightarrow> s \<le> snd x"
      by blast
    with False r show ?thesis by (auto simp: mx)
  qed
qed

lemma three_blocks_flist: "flist three_blocks 0x1000 [(0x1000, 50), (0x1100, 30), (0x1200, 30)]"
  by (simp add: three_blocks_def load64_def store64_def off_next_def)

theorem mem_best_fit_spec_witness:
  "flist three_blocks 0x1000 [(0x1000, 50), (0x1100, 30), (0x1200, 30)] \<and>
   mem_best_fit three_blocks 0x1000 20 = Some 0x1100"
proof -
  have "\<exists>pre a s post. [(0x1000, 50), (0x1100, 30), (0x1200, 30 :: 64 word)] = pre @ (a, s) # post \<and>
      mem_best_fit three_blocks 0x1000 20 = Some a \<and> 20 \<le> s \<and> s \<noteq> - 1 \<and>
      (\<forall>x\<in>set pre. 20 \<le> snd x \<longrightarrow> s < snd x) \<and>
      (\<forall>x\<in>set post. 20 \<le> snd x \<longrightarrow> s \<le> snd x)"
    using mem_best_fit_spec [OF three_blocks_flist, of 20] by simp
  then obtain pre a s post where
    d: "[(0x1000, 50), (0x1100, 30), (0x1200, 30 :: 64 word)] = pre @ (a, s) # post"
      "mem_best_fit three_blocks 0x1000 20 = Some (a :: addr)"
      "\<forall>x\<in>set pre. 20 \<le> snd x \<longrightarrow> s < snd x"
      "\<forall>x\<in>set post. 20 \<le> snd x \<longrightarrow> s \<le> snd x"
    by blast
  have "a = 0x1100"
    using d(1,3,4) by (auto simp: Cons_eq_append_conv)
  with d(2) three_blocks_flist show ?thesis by simp
qed

section \<open>The free list in memory\<close>

lemma flist_fseg: "flist m p xs \<longleftrightarrow> fseg m p xs 0"
  by (induction xs arbitrary: p) auto

lemma fseg_append:
  "fseg m p (xs @ ys) q \<longleftrightarrow> (\<exists>r. fseg m p xs r \<and> fseg m r ys q)"
  by (induction xs arbitrary: p) auto

lemma fseg_slot: "fseg m (load64 m slot) xs q \<Longrightarrow> load64 m (slot_after slot xs) = q"
  by (induction xs arbitrary: slot) auto

lemma unat_plus_nowrap:
  fixes a b :: "64 word"
  shows "unat a + unat b < 2 ^ 64 \<Longrightarrow> unat (a + b) = unat a + unat b"
  using unat_add_lem [of a b] by simp

lemma chain_mono: "chain lo hi xs \<Longrightarrow> lo' \<le> lo \<Longrightarrow> hi \<le> hi' \<Longrightarrow> chain lo' hi' xs"
proof (induction xs arbitrary: lo lo')
  case Nil
  then show ?case by simp
next
  case (Cons x xs)
  obtain a s where x: "x = (a, s)" by (cases x)
  from Cons.prems have "chain (unat a + 16 + unat s + 1) hi xs" by (simp add: x)
  from Cons.IH [OF this, of "unat a + 16 + unat s + 1"] Cons.prems
  show ?case by (simp add: x)
qed

lemma chain_append:
  "chain lo hi (xs @ ys) \<longleftrightarrow> chain lo hi xs \<and> chain (cend lo xs) hi ys"
  by (induction xs arbitrary: lo) auto

lemma cend_append: "cend lo (xs @ ys) = cend (cend lo xs) ys"
  by (induction xs arbitrary: lo) auto

lemma cend_ge: "chain lo hi xs \<Longrightarrow> lo \<le> cend lo xs"
proof (induction xs arbitrary: lo)
  case Nil
  then show ?case by simp
next
  case (Cons x xs)
  obtain a s where x: "x = (a, s)" by (cases x)
  from Cons.prems have c: "lo \<le> unat a" "chain (unat a + 16 + unat s + 1) hi xs"
    by (simp_all add: x)
  from Cons.IH [OF c(2)] c(1) show ?case by (simp add: x)
qed

lemma cend_le: "chain lo hi xs \<Longrightarrow> xs \<noteq> [] \<Longrightarrow> cend lo xs \<le> hi + 1"
proof (induction xs arbitrary: lo)
  case Nil
  then show ?case by simp
next
  case (Cons x xs)
  obtain a s where x: "x = (a, s)" by (cases x)
  from Cons.prems have c: "unat a + 16 + unat s \<le> hi" "chain (unat a + 16 + unat s + 1) hi xs"
    by (simp_all add: x)
  show ?case
  proof (cases "xs = []")
    case True
    with c show ?thesis by (simp add: x)
  next
    case False
    from Cons.IH [OF c(2) False] show ?thesis by (simp add: x)
  qed
qed

lemma chain_members:
  "chain lo hi xs \<Longrightarrow> (a, s) \<in> set xs \<Longrightarrow>
   lo \<le> unat a \<and> unat a + 16 + unat s \<le> hi \<and> unat a + 16 + unat s + 1 \<le> cend lo xs"
proof (induction xs arbitrary: lo)
  case Nil
  then show ?case by simp
next
  case (Cons x xs)
  obtain b t where x: "x = (b, t)" by (cases x)
  from Cons.prems(1) have c: "lo \<le> unat b" "unat b + 16 + unat t \<le> hi"
    "chain (unat b + 16 + unat t + 1) hi xs" by (simp_all add: x)
  show ?case
  proof (cases "(a, s) \<in> set xs")
    case True
    from Cons.IH [OF c(3) True] c(1) show ?thesis by (simp add: x)
  next
    case False
    with Cons.prems(2) have "a = b" "s = t" by (auto simp: x)
    with c cend_ge [OF c(3)] show ?thesis by (simp add: x)
  qed
qed

text \<open>A store to a cell that overlaps no header of a segment leaves the segment as it is.\<close>

lemma cell_clear_simps [simp]:
  "cell_clear c []"
  "cell_clear c ((a, s) # xs) \<longleftrightarrow> disj8 c a \<and> disj8 c (a + 8) \<and> cell_clear c xs"
  "cell_clear c (xs @ ys) \<longleftrightarrow> cell_clear c xs \<and> cell_clear c ys"
  by (auto simp: cell_clear_def)

lemma fseg_store_frame:
  "cell_clear c xs \<Longrightarrow> fseg (store64 m c v) p xs q \<longleftrightarrow> fseg m p xs q"
proof (induction xs arbitrary: p)
  case Nil
  then show ?case by simp
next
  case (Cons x xs)
  obtain a s where x: "x = (a, s)" by (cases x)
  from Cons.prems have d: "disj8 c a" "disj8 c (a + 8)" "cell_clear c xs" by (simp_all add: x)
  show ?case
    by (simp add: x off_next_def load64_store64_disj [OF d(1)] load64_store64_disj [OF d(2)]
          Cons.IH [OF d(3)])
qed

lemma cell_clear_before:
  assumes "chain lo hi xs" "hi \<le> 2 ^ 64" "unat c + 8 \<le> lo"
  shows "cell_clear c xs"
  unfolding cell_clear_def
proof
  fix x assume xin: "x \<in> set xs"
  obtain a s where x1: "x = (a, s)" by (cases x)
  with xin have x: "x = (a, s)" "(a, s) \<in> set xs" by simp_all
  from chain_members [OF assms(1) x(2)] have b: "lo \<le> unat a" "unat a + 16 + unat s \<le> hi"
    by simp_all
  have a8: "unat (a + 8) = unat a + 8"
    using b(2) assms(2) by (simp add: unat_plus_nowrap)
  have "disj8 c a" using b assms(2,3) by (intro disj8_natI) simp
  moreover have "disj8 c (a + 8)" using b assms(2,3) a8 by (intro disj8_natI) simp
  ultimately show "disj8 c (fst x) \<and> disj8 c (fst x + 8)" by (simp add: x)
qed

lemma cell_clear_after:
  assumes "chain lo hi xs" "cend lo xs \<le> unat c + 1" "unat c + 8 \<le> 2 ^ 64"
  shows "cell_clear c xs"
  unfolding cell_clear_def
proof
  fix x assume xin: "x \<in> set xs"
  obtain a s where x1: "x = (a, s)" by (cases x)
  with xin have x: "x = (a, s)" "(a, s) \<in> set xs" by simp_all
  from chain_members [OF assms(1) x(2)] have b: "unat a + 16 + unat s + 1 \<le> cend lo xs"
    by simp
  have a8: "unat (a + 8) = unat a + 8"
    using b assms(2,3) by (simp add: unat_plus_nowrap)
  have "disj8 c a" using b assms(2,3) by (intro disj8_natI) simp
  moreover have "disj8 c (a + 8)" using b assms(2,3) a8 by (intro disj8_natI) simp
  ultimately show "disj8 c (fst x) \<and> disj8 c (fst x + 8)" by (simp add: x)
qed

section \<open>\<^verbatim>\<open>search_block\<close>\<close>

lemma search_block_slot:
  "fseg m (load64 m slot) pre q \<Longrightarrow> (\<forall>x\<in>set pre. fst x < blk) \<Longrightarrow> q = 0 \<or> \<not> q < blk \<Longrightarrow>
   search_block m blk slot = Some (slot_after slot pre)"
proof (induction pre arbitrary: slot)
  case Nil
  then show ?case by (subst search_block.simps) auto
next
  case (Cons x pre)
  obtain a s where x: "x = (a, s)" by (cases x)
  from Cons.prems have f: "load64 m slot = a" "a \<noteq> 0" "a < blk"
    "fseg m (load64 m (a + off_next)) pre q" "\<forall>x\<in>set pre. fst x < blk"
    by (simp_all add: x)
  show ?case
    using f(1,2,3) Cons.IH [OF f(4) f(5) Cons.prems(3)]
    by (subst search_block.simps) (simp add: x)
qed

section \<open>Removing a block from the free list\<close>

lemma slot_after_snoc [simp]: "slot_after slot (pre @ [(a, s)]) = a + off_next"
  by (induction pre arbitrary: slot) auto

lemma fseg_snoc:
  "fseg m p (pre @ [(a, s)]) q \<longleftrightarrow>
     fseg m p pre a \<and> a \<noteq> 0 \<and> load64 m a = s \<and> load64 m (a + off_next) = q"
  by (auto simp: fseg_append)

lemma chain_snoc:
  "chain lo hi (pre @ [(a, s)]) \<longleftrightarrow>
     chain lo hi pre \<and> cend lo pre \<le> unat a \<and> unat a + 16 + unat s \<le> hi"
  by (auto simp: chain_append)

lemma lseg_frame:
  "disj8 c H \<Longrightarrow> cell_clear c pre \<Longrightarrow>
   fseg (store64 m c v) (load64 (store64 m c v) H) pre q \<longleftrightarrow> fseg m (load64 m H) pre q"
  by (simp add: load64_store64_disj fseg_store_frame)

lemma slot_after_geometry:
  assumes "chain lo hi pre" "hi \<le> 2 ^ 64" "unat H + 8 \<le> lo"
  shows "unat (slot_after H pre) + 8 \<le> cend lo pre"
    and "pre \<noteq> [] \<longrightarrow> lo + 8 \<le> unat (slot_after H pre)"
proof -
  have "unat (slot_after H pre) + 8 \<le> cend lo pre \<and>
        (pre \<noteq> [] \<longrightarrow> lo + 8 \<le> unat (slot_after H pre))"
  proof (cases pre rule: rev_cases)
    case Nil
    then show ?thesis using assms by simp
  next
    case (snoc pre' x)
    obtain a s where x: "x = (a, s)" by (cases x)
    from assms(1) have c: "chain lo hi pre'" "cend lo pre' \<le> unat a" "unat a + 16 + unat s \<le> hi"
      by (simp_all add: snoc x chain_snoc)
    have a8: "unat (a + 8) = unat a + 8"
      using c(3) assms(2) by (simp add: unat_plus_nowrap)
    from cend_ge [OF c(1)] c(2) have "lo \<le> unat a" by simp
    then show ?thesis
      using a8 by (simp add: snoc x cend_append off_next_def)
  qed
  then show "unat (slot_after H pre) + 8 \<le> cend lo pre"
    and "pre \<noteq> [] \<longrightarrow> lo + 8 \<le> unat (slot_after H pre)" by simp_all
qed

lemma lseg_set_slot:
  assumes "chain lo hi pre" "hi \<le> 2 ^ 64" "unat H + 8 \<le> lo"
    and "fseg m (load64 m H) pre q"
  shows "fseg (store64 m (slot_after H pre) v) (load64 (store64 m (slot_after H pre) v) H) pre v"
proof (cases pre rule: rev_cases)
  case Nil
  then show ?thesis by (simp add: load64_store64_same)
next
  case (snoc pre' x)
  obtain a s where x: "x = (a, s)" by (cases x)
  from assms(1) have c: "chain lo hi pre'" "cend lo pre' \<le> unat a" "unat a + 16 + unat s \<le> hi"
    by (simp_all add: snoc x chain_snoc)
  from assms(4) have f: "fseg m (load64 m H) pre' a" "a \<noteq> 0" "load64 m a = s"
    by (simp_all add: snoc x fseg_snoc)
  have a8: "unat (a + 8) = unat a + 8"
    using c(3) assms(2) by (simp add: unat_plus_nowrap)
  from cend_ge [OF c(1)] c(2) have lo: "lo \<le> unat a" by simp
  have d1: "disj8 (a + 8) H"
    using lo assms(2,3) a8 c(3) by (intro disj8_natI) simp
  have d2: "cell_clear (a + 8) pre'"
    using c a8 assms(2) by (intro cell_clear_after [OF c(1)]) simp_all
  have "fseg (store64 m (a + 8) v) (load64 (store64 m (a + 8) v) H) pre' a"
    using f(1) by (simp add: lseg_frame [OF d1 d2])
  moreover have "load64 (store64 m (a + 8) v) a = s"
    using f(3) by (simp add: load64_store64_disj)
  moreover have "load64 (store64 m (a + 8) v) (a + 8) = v"
    by (simp add: load64_store64_same)
  ultimately show ?thesis
    using f(2) by (simp add: snoc x fseg_snoc off_next_def)
qed

lemma remove_block_mem:
  "rd st list = block \<Longrightarrow>
   mem (remove_block st block list) =
     store64 (store64 (mem st) list (load64 (mem st) (block + off_next))) (block + off_next) 0"
  by (simp add: remove_block_def rd_def wr_def Let_def)

lemma remove_block_fields [simp]:
  "free_block_list_addr (remove_block st b l) = free_block_list_addr st"
  "memory_area (remove_block st b l) = memory_area st"
  "MEM_SPACE_MIN (remove_block st b l) = MEM_SPACE_MIN st"
  "MEM_SPACE_MAX (remove_block st b l) = MEM_SPACE_MAX st"
  "secret_number (remove_block st b l) = secret_number st"
  "current_fit_function (remove_block st b l) = current_fit_function st"
  by (simp_all add: remove_block_def Let_def)

text \<open>
  The setting of the lemmas below: the free list \<open>pre @ (a, s) # post\<close> hangs off the
  pointer cell \<open>H\<close>, which lies below the blocks.
\<close>

lemma remove_effect:
  assumes ch: "chain lo hi (pre @ (a, s) # post)" and hi: "hi \<le> 2 ^ 64" and H: "unat H + 8 \<le> lo"
    and fl: "fseg m (load64 m H) (pre @ (a, s) # post) 0"
  defines "m' \<equiv> store64 (store64 m (slot_after H pre) (load64 m (a + off_next))) (a + off_next) 0"
  shows "fseg m' (load64 m' H) (pre @ post) 0"
    and "load64 m' a = s"
    and "load64 m' (slot_after H pre) = load64 m (a + off_next)"
proof -
  let ?sl = "slot_after H pre"
  let ?nx = "load64 m (a + off_next)"
  from ch have c: "chain lo hi pre" "cend lo pre \<le> unat a" "unat a + 16 + unat s \<le> hi"
    "chain (unat a + 16 + unat s + 1) hi post"
    by (simp_all add: chain_append)
  from fl have f: "fseg m (load64 m H) pre a" "a \<noteq> 0" "load64 m a = s" "fseg m ?nx post 0"
    by (auto simp: fseg_append)
  have a8: "unat (a + 8) = unat a + 8"
    using c(3) hi by (simp add: unat_plus_nowrap)
  have sl: "unat ?sl + 8 \<le> cend lo pre"
    using slot_after_geometry(1) [OF c(1) hi H] .
  from cend_ge [OF c(1)] c(2) have lo: "lo \<le> unat a" by simp
  \<comment> \<open>the first store\<close>
  let ?m1 = "store64 m ?sl ?nx"
  have p1: "fseg ?m1 (load64 ?m1 H) pre ?nx"
    using lseg_set_slot [OF c(1) hi H f(1)] .
  have cp: "cell_clear ?sl post"
    using sl c(2) hi by (intro cell_clear_before [OF c(4)]) simp_all
  have q1: "fseg ?m1 ?nx post 0"
    using f(4) by (simp add: fseg_store_frame [OF cp])
  have dsa: "disj8 ?sl a" "disj8 ?sl (a + 8)"
    using sl c(2,3) hi a8 by (auto intro!: disj8_natI)
  \<comment> \<open>the second store\<close>
  have dH: "disj8 (a + 8) H"
    using lo H a8 c(3) hi by (intro disj8_natI) simp
  have c2: "cell_clear (a + 8) pre"
    using c a8 hi by (intro cell_clear_after [OF c(1)]) simp_all
  have c3: "cell_clear (a + 8) post"
    using c a8 hi by (intro cell_clear_before [OF c(4)]) simp_all
  have p2: "fseg m' (load64 m' H) pre ?nx"
    using p1 unfolding m'_def off_next_def by (simp add: lseg_frame [OF dH c2])
  have q2: "fseg m' ?nx post 0"
    using q1 unfolding m'_def off_next_def by (simp add: fseg_store_frame [OF c3])
  show "fseg m' (load64 m' H) (pre @ post) 0"
    using p2 q2 by (auto simp: fseg_append)
  show "load64 m' a = s"
    unfolding m'_def off_next_def
    by (simp add: load64_store64_disj disj8_sym [of "a + 8" a] dsa(1) f(3))
  show "load64 m' ?sl = ?nx"
    unfolding m'_def off_next_def
    using dsa(2) by (simp add: load64_store64_disj disj8_sym [of "a + 8"] load64_store64_same)
qed

section \<open>Inserting a block into the free list\<close>

lemma insert_block_fields [simp]:
  "free_block_list_addr (insert_block st b l) = free_block_list_addr st"
  "memory_area (insert_block st b l) = memory_area st"
  "MEM_SPACE_MIN (insert_block st b l) = MEM_SPACE_MIN st"
  "MEM_SPACE_MAX (insert_block st b l) = MEM_SPACE_MAX st"
  "secret_number (insert_block st b l) = secret_number st"
  "current_fit_function (insert_block st b l) = current_fit_function st"
  by (simp_all add: insert_block_def Let_def)

lemma mem_wr [simp]: "mem (wr st a v) = store64 (mem st) a v"
  by (simp add: wr_def)

text \<open>
  The predecessor computed by \<^verbatim>\<open>insert_block\<close> from the pointer cell: with the head
  variable below the arena, \<^verbatim>\<open>prev >= memory_area\<close> holds exactly when the cell is the
  \<^verbatim>\<open>next\<close> field of a block.
\<close>

lemma prev_test_head:
  fixes H B :: "64 word"
  assumes "8 \<le> unat H" "unat H + 8 \<le> unat B"
  shows "\<not> B \<le> H - off_next"
proof -
  have "unat (H - 8) = unat H - 8"
    using assms(1) by (simp add: unat_sub word_le_nat_alt)
  then show ?thesis using assms by (simp add: word_le_nat_alt off_next_def)
qed

lemma prev_test_block:
  fixes a B :: "64 word"
  assumes "unat B \<le> unat a"
  shows "B \<le> a + off_next - off_next" "a + off_next - off_next = a"
  using assms by (simp_all add: word_le_nat_alt)

lemma word_neq_by_unat: "unat (x :: 64 word) \<noteq> unat y \<Longrightarrow> x \<noteq> y"
  by auto

lemma insert_effect_plain:
  assumes ch: "chain lo hi (pre @ (b, sz) # post)" and hi: "hi < 2 ^ 64"
    and H: "unat H + 8 \<le> lo" "8 \<le> unat H"
    and st: "free_block_list_addr st = H" "unat (memory_area st) = lo"
    and fl: "fseg (mem st) (load64 (mem st) H) (pre @ post) 0"
    and b: "load64 (mem st) b = sz" "b \<noteq> 0"
  defines "m' \<equiv> store64 (store64 (mem st) (b + off_next) (load64 (mem st) (slot_after H pre)))
                   (slot_after H pre) b"
  shows "mem (insert_block st b (slot_after H pre)) = m'"
    and "fseg m' (load64 m' H) (pre @ (b, sz) # post) 0"
proof -
  let ?m = "mem st"
  let ?sl = "slot_after H pre"
  let ?q = "load64 ?m ?sl"
  have hi': "hi \<le> 2 ^ 64" using hi by simp
  from ch have c: "chain lo hi pre" "cend lo pre \<le> unat b" "unat b + 16 + unat sz \<le> hi"
    "chain (unat b + 16 + unat sz + 1) hi post"
    by (simp_all add: chain_append)
  from fl obtain q where f: "fseg ?m (load64 ?m H) pre q" "fseg ?m q post 0"
    by (auto simp: fseg_append)
  have q: "?q = q" using fseg_slot [OF f(1)] .
  have b8: "unat (b + 8) = unat b + 8"
    using c(3) hi by (simp add: unat_plus_nowrap)
  have bend: "unat (b + sz + 16) = unat b + unat sz + 16"
    using c(3) hi by (simp add: unat_plus_nowrap)
  have sl: "unat ?sl + 8 \<le> cend lo pre"
    using slot_after_geometry(1) [OF c(1) hi' H(1)] .
  from cend_ge [OF c(1)] c(2) have lo: "lo \<le> unat b" by simp
  have dsl: "disj8 ?sl b" "disj8 ?sl (b + 8)"
    using sl c(2,3) hi b8 by (auto intro!: disj8_natI)
  have dH: "disj8 (b + 8) H"
    using lo H b8 c(3) hi by (intro disj8_natI) simp
  have cpre: "cell_clear (b + 8) pre"
    using c b8 hi by (intro cell_clear_after [OF c(1)]) simp_all
  have cpost: "cell_clear (b + 8) post"
    using c b8 hi by (intro cell_clear_before [OF c(4)]) simp_all
  have spost: "cell_clear ?sl post"
    using sl c(2) hi by (intro cell_clear_before [OF c(4)]) simp_all
  \<comment> \<open>the right neighbour is not adjacent\<close>
  have nadj: "q \<noteq> 0 \<Longrightarrow> b + sz + MEM_FREE_BLOCK_SIZE \<noteq> q"
  proof -
    assume "q \<noteq> 0"
    with f(2) obtain t post' where p: "post = (q, t) # post'" by (cases post) auto
    with c(4) have "unat b + 16 + unat sz + 1 \<le> unat q" by simp
    with bend show ?thesis by (intro word_neq_by_unat) (simp add: consts_simps)
  qed
  let ?m1 = "store64 ?m (b + off_next) q"
  have st1: "(if rd st ?sl \<noteq> 0 then
                (if b + rd st b + MEM_FREE_BLOCK_SIZE = rd st ?sl then
                  (let sa = wr st b (rd st b + (MEM_FREE_BLOCK_SIZE + rd st (rd st ?sl)));
                       sb = wr sa (b + off_next) (rd sa (rd sa ?sl + off_next))
                   in sb)
                 else wr st (b + off_next) (rd st ?sl))
              else wr st (b + off_next) 0) = wr st (b + off_next) q"
    using nadj q b(1) by (auto simp: rd_def)
  \<comment> \<open>the left neighbour is not adjacent\<close>
  have fin: "(let prev = ?sl - off_next; s1 = wr st (b + off_next) q in
               if prev \<ge> memory_area s1 then
                 (if prev + MEM_FREE_BLOCK_SIZE + rd s1 prev = b then
                    (let sa = wr s1 prev (rd s1 prev + (MEM_FREE_BLOCK_SIZE + rd s1 b));
                         sb = wr sa (prev + off_next) (rd sa (b + off_next))
                     in sb)
                  else wr s1 (prev + off_next) b)
               else wr s1 ?sl b) = wr (wr st (b + off_next) q) ?sl b"
  proof (cases pre rule: rev_cases)
    case Nil
    have "\<not> memory_area st \<le> H - off_next"
      using prev_test_head [of H "memory_area st"] H st by simp
    then show ?thesis by (simp add: Nil Let_def)
  next
    case (snoc pre' x)
    obtain pa ps where x: "x = (pa, ps)" by (cases x)
    from c(1) have pc: "chain lo hi pre'" "cend lo pre' \<le> unat pa" "unat pa + 16 + unat ps \<le> hi"
      by (simp_all add: snoc x chain_snoc)
    from f(1) have pf: "load64 ?m pa = ps" by (simp add: snoc x fseg_snoc)
    from cend_ge [OF pc(1)] pc(2) have plo: "lo \<le> unat pa" by simp
    have pend: "unat (pa + 16 + ps) = unat pa + 16 + unat ps"
      using pc(3) hi by (simp add: unat_plus_nowrap)
    have "cend lo pre = unat pa + 16 + unat ps + 1" by (simp add: snoc x cend_append)
    with c(2) have "unat pa + 16 + unat ps < unat b" by simp
    with pend have ne: "pa + 16 + ps \<noteq> b" by (intro word_neq_by_unat) simp
    have dpa: "disj8 (b + 8) pa"
      using pc(3) c(2,3) \<open>unat pa + 16 + unat ps < unat b\<close> b8 hi by (intro disj8_natI) simp
    have rp: "rd (wr st (b + off_next) q) pa = ps"
      using pf by (simp add: rd_def off_next_def load64_store64_disj [OF dpa])
    have t: "memory_area st \<le> pa" using plo st by (simp add: word_le_nat_alt)
    show ?thesis
      using ne rp t by (simp add: snoc x Let_def consts_simps)
  qed
  show m: "mem (insert_block st b ?sl) = m'"
    unfolding insert_block_def st1 using fin by (simp add: Let_def m'_def q)
  have p1: "fseg ?m1 (load64 ?m1 H) pre q"
    using f(1) by (simp add: off_next_def lseg_frame [OF dH cpre])
  have p2: "fseg m' (load64 m' H) pre b"
    using lseg_set_slot [OF c(1) hi' H(1) p1] by (simp add: m'_def q)
  have l1: "load64 m' b = sz"
    using b(1) dsl(1)
    by (simp add: m'_def off_next_def load64_store64_disj disj8_sym [of "b + 8" b])
  have l2: "load64 m' (b + off_next) = q"
    using dsl(2) by (simp add: m'_def off_next_def q load64_store64_disj load64_store64_same)
  have p3: "fseg m' q post 0"
    using f(2) by (simp add: m'_def off_next_def fseg_store_frame [OF spost] fseg_store_frame [OF cpost])
  show "fseg m' (load64 m' H) (pre @ (b, sz) # post) 0"
    using p2 p3 l1 l2 b(2) by (auto simp: fseg_append)
qed

lemma insert_left_plain:
  assumes c: "chain lo hi pre" "cend lo pre \<le> unat b" and hi: "hi < 2 ^ 64"
    and H: "unat H + 8 \<le> lo" "8 \<le> unat H"
    and st: "unat (memory_area s1) = lo"
    and f: "fseg (mem s1) (load64 (mem s1) H) pre q"
  shows "(let prev = slot_after H pre - off_next in
            if prev \<ge> memory_area s1 then
              (if prev + MEM_FREE_BLOCK_SIZE + rd s1 prev = b then
                 (let sa = wr s1 prev (rd s1 prev + (MEM_FREE_BLOCK_SIZE + rd s1 b));
                      sb = wr sa (prev + off_next) (rd sa (b + off_next))
                  in sb)
               else wr s1 (prev + off_next) b)
            else wr s1 (slot_after H pre) b) = wr s1 (slot_after H pre) b"
proof (cases pre rule: rev_cases)
  case Nil
  have "\<not> memory_area s1 \<le> H - off_next"
    using prev_test_head [of H "memory_area s1"] H st by simp
  then show ?thesis by (simp add: Nil Let_def)
next
  case (snoc pre' x)
  obtain pa ps where x: "x = (pa, ps)" by (cases x)
  from c(1) have pc: "chain lo hi pre'" "cend lo pre' \<le> unat pa" "unat pa + 16 + unat ps \<le> hi"
    by (simp_all add: snoc x chain_snoc)
  from f have pf: "load64 (mem s1) pa = ps" by (simp add: snoc x fseg_snoc)
  from cend_ge [OF pc(1)] pc(2) have plo: "lo \<le> unat pa" by simp
  have pend: "unat (pa + 16 + ps) = unat pa + 16 + unat ps"
    using pc(3) hi by (simp add: unat_plus_nowrap)
  have "cend lo pre = unat pa + 16 + unat ps + 1" by (simp add: snoc x cend_append)
  with c(2) have "unat pa + 16 + unat ps < unat b" by simp
  with pend have ne: "pa + 16 + ps \<noteq> b" by (intro word_neq_by_unat) simp
  have t: "memory_area s1 \<le> pa" using plo st by (simp add: word_le_nat_alt)
  show ?thesis
    using ne pf t by (simp add: snoc x Let_def consts_simps rd_def)
qed

lemma word_eq_by_unat: "unat (x :: 64 word) = unat y \<Longrightarrow> x = y"
  by (simp add: word_unat_eq_iff)

lemma insert_effect_fuse_right:
  assumes c: "chain lo hi pre" "cend lo pre \<le> unat b" "unat b + 16 + unat sz = unat r"
      "unat r + 16 + unat t \<le> hi" "chain (unat r + 16 + unat t + 1) hi post"
    and hi: "hi < 2 ^ 64"
    and H: "unat H + 8 \<le> lo" "8 \<le> unat H"
    and st: "free_block_list_addr st = H" "unat (memory_area st) = lo"
    and fl: "fseg (mem st) (load64 (mem st) H) (pre @ (r, t) # post) 0"
    and b: "load64 (mem st) b = sz" "b \<noteq> 0"
  defines "m' \<equiv> store64 (store64 (store64 (mem st) b (sz + (MEM_FREE_BLOCK_SIZE + t)))
                     (b + off_next) (load64 (mem st) (r + off_next)))
                   (slot_after H pre) b"
  shows "mem (insert_block st b (slot_after H pre)) = m'"
    and "fseg m' (load64 m' H) (pre @ (b, sz + (MEM_FREE_BLOCK_SIZE + t)) # post) 0"
    and "unat (sz + (MEM_FREE_BLOCK_SIZE + t)) = unat sz + 16 + unat t"
proof -
  let ?m = "mem st"
  let ?sl = "slot_after H pre"
  let ?nx = "load64 ?m (r + off_next)"
  let ?v = "sz + (MEM_FREE_BLOCK_SIZE + t)"
  have hi': "hi \<le> 2 ^ 64" using hi by simp
  from fl have f: "fseg ?m (load64 ?m H) pre r" "r \<noteq> 0" "load64 ?m r = t" "fseg ?m ?nx post 0"
    by (auto simp: fseg_append)
  have q: "load64 ?m ?sl = r" using fseg_slot [OF f(1)] .
  have b8: "unat (b + 8) = unat b + 8"
    using c(3,4) hi by (simp add: unat_plus_nowrap)
  have r8: "unat (r + 8) = unat r + 8"
    using c(4) hi by (simp add: unat_plus_nowrap)
  have bend: "unat (b + sz + 16) = unat b + unat sz + 16"
    using c(3,4) hi by (simp add: unat_plus_nowrap)
  have t16: "unat (16 + t) = 16 + unat t"
    using c(4) hi by (simp add: unat_plus_nowrap)
  show v: "unat ?v = unat sz + 16 + unat t"
    using c(3,4) hi t16 by (simp add: unat_plus_nowrap consts_simps)
  have sl: "unat ?sl + 8 \<le> cend lo pre"
    using slot_after_geometry(1) [OF c(1) hi' H(1)] .
  from cend_ge [OF c(1)] c(2) have lo: "lo \<le> unat b" by simp
  have dsl: "disj8 ?sl b" "disj8 ?sl (b + 8)"
    using sl c(2,3,4) hi b8 by (auto intro!: disj8_natI)
  have dH: "disj8 (b + 8) H" "disj8 b H"
    using lo H b8 c(3,4) hi by (auto intro!: disj8_natI)
  have cpre: "cell_clear (b + 8) pre" "cell_clear b pre"
    using c b8 hi by (auto intro!: cell_clear_after [OF c(1)])
  have cpost: "cell_clear (b + 8) post" "cell_clear b post"
    using c b8 hi by (auto intro!: cell_clear_before [OF c(5)])
  have spost: "cell_clear ?sl post"
    using sl c(2,3,4) hi by (intro cell_clear_before [OF c(5)]) simp_all
  have dr: "disj8 b r" "disj8 b (r + 8)"
    using c(3,4) hi r8 by (auto intro!: disj8_natI)
  have adj: "b + sz + MEM_FREE_BLOCK_SIZE = r"
    using bend c(3) by (intro word_eq_by_unat) (simp add: consts_simps)
  let ?m1 = "store64 (store64 ?m b ?v) (b + off_next) ?nx"
  let ?s1 = "wr (wr st b ?v) (b + off_next) ?nx"
  have st1: "(if rd st ?sl \<noteq> 0 then
                (if b + rd st b + MEM_FREE_BLOCK_SIZE = rd st ?sl then
                  (let sa = wr st b (rd st b + (MEM_FREE_BLOCK_SIZE + rd st (rd st ?sl)));
                       sb = wr sa (b + off_next) (rd sa (rd sa ?sl + off_next))
                   in sb)
                 else wr st (b + off_next) (rd st ?sl))
              else wr st (b + off_next) 0) = ?s1"
    using adj q b(1) f(2,3) dsl(1) dr(2)
    by (simp add: rd_def Let_def load64_store64_disj disj8_sym [of b] off_next_def)
  have p1: "fseg ?m1 (load64 ?m1 H) pre r"
    using f(1) by (simp add: off_next_def lseg_frame [OF dH(1) cpre(1)] lseg_frame [OF dH(2) cpre(2)])
  have fin: "(let prev = ?sl - off_next in
               if prev \<ge> memory_area ?s1 then
                 (if prev + MEM_FREE_BLOCK_SIZE + rd ?s1 prev = b then
                    (let sa = wr ?s1 prev (rd ?s1 prev + (MEM_FREE_BLOCK_SIZE + rd ?s1 b));
                         sb = wr sa (prev + off_next) (rd sa (b + off_next))
                     in sb)
                  else wr ?s1 (prev + off_next) b)
               else wr ?s1 ?sl b) = wr ?s1 ?sl b"
    using p1 st by (intro insert_left_plain [OF c(1,2) hi H]) simp_all
  show "mem (insert_block st b ?sl) = m'"
    unfolding insert_block_def st1 using fin by (simp add: Let_def m'_def)
  have p2: "fseg m' (load64 m' H) pre b"
    using lseg_set_slot [OF c(1) hi' H(1) p1] by (simp add: m'_def)
  have l1: "load64 m' b = ?v"
    using dsl(1)
    by (simp add: m'_def off_next_def load64_store64_disj load64_store64_same
          disj8_sym [of "b + 8" b])
  have l2: "load64 m' (b + off_next) = ?nx"
    using dsl(2) by (simp add: m'_def off_next_def load64_store64_disj load64_store64_same)
  have p3: "fseg m' ?nx post 0"
    using f(4)
    by (simp add: m'_def off_next_def fseg_store_frame [OF spost] fseg_store_frame [OF cpost(1)]
          fseg_store_frame [OF cpost(2)])
  show "fseg m' (load64 m' H) (pre @ (b, ?v) # post) 0"
    using p2 p3 l1 l2 b(2) by (auto simp: fseg_append)
qed

section \<open>What the placement policies return\<close>

lemma first_fit_result:
  "flist m p xs \<Longrightarrow>
   \<exists>r. mem_first_fit m p req = Some r \<and> (r = 0 \<or> (\<exists>s. (r, s) \<in> set xs \<and> req \<le> s))"
proof (induction xs arbitrary: p)
  case Nil
  then show ?case by (subst mem_first_fit.simps) simp
next
  case (Cons x xs)
  obtain a s where x: "x = (a, s)" by (cases x)
  from Cons.prems have p: "p = a" "a \<noteq> 0" "load64 m a = s"
    and t: "flist m (load64 m (a + off_next)) xs"
    by (simp_all add: x)
  from Cons.IH [OF t] obtain r where
    r: "mem_first_fit m (load64 m (a + off_next)) req = Some r"
       "r = 0 \<or> (\<exists>s. (r, s) \<in> set xs \<and> req \<le> s)" by blast
  show ?case
  proof (cases "req \<le> s")
    case True
    then have "mem_first_fit m p req = Some a"
      using p by (subst mem_first_fit.simps) simp
    with True show ?thesis by (auto simp: x)
  next
    case False
    then have "mem_first_fit m p req = Some r"
      using p r(1) by (subst mem_first_fit.simps) simp
    with r(2) show ?thesis by (auto simp: x)
  qed
qed

lemma best_of_member:
  "best_of xs req bf bs = bf \<or> (\<exists>s. (best_of xs req bf bs, s) \<in> set xs \<and> req \<le> s)"
proof (induction xs arbitrary: bf bs)
  case Nil
  then show ?case by simp
next
  case (Cons x xs)
  show ?case
  proof (cases "req \<le> snd x \<and> snd x < bs")
    case True
    with Cons.IH [of "fst x" "snd x"] show ?thesis
      by (cases x) auto
  next
    case False
    with Cons.IH [of bf bs] show ?thesis by auto
  qed
qed

lemma worst_fit_loop_list:
  "flist m p xs \<Longrightarrow> worst_fit_loop m p req wb wsz = Some (worst_of xs req wb wsz)"
proof (induction xs arbitrary: p wb wsz)
  case Nil
  then show ?case by (subst worst_fit_loop.simps) simp
next
  case (Cons x xs)
  obtain a s where x: "x = (a, s)" by (cases x)
  from Cons.prems have p: "p = a" "a \<noteq> 0" "load64 m a = s"
    and t: "flist m (load64 m (a + off_next)) xs"
    by (simp_all add: x)
  show ?case
    unfolding p(1) x
    by (subst worst_fit_loop.simps) (simp add: p(2,3) Cons.IH [OF t])
qed

lemma worst_of_member:
  "worst_of xs req wb wsz = wb \<or> (\<exists>s. (worst_of xs req wb wsz, s) \<in> set xs \<and> req \<le> s)"
proof (induction xs arbitrary: wb wsz)
  case Nil
  then show ?case by simp
next
  case (Cons x xs)
  show ?case
  proof (cases "req \<le> snd x \<and> wsz < snd x")
    case True
    with Cons.IH [of "fst x" "snd x"] show ?thesis
      by (cases x) auto
  next
    case False
    with Cons.IH [of wb wsz] show ?thesis by auto
  qed
qed

lemma provided_policy_result:
  assumes "provided_policy f" "flist m p xs"
  shows "\<exists>r. f m p req = Some r \<and> (r = 0 \<or> (\<exists>s. (r, s) \<in> set xs \<and> req \<le> s))"
proof -
  consider "f = mem_first_fit" | "f = mem_best_fit" | "f = mem_worst_fit"
    using assms(1) by (auto simp: provided_policy_def)
  then show ?thesis
  proof cases
    case 1
    then show ?thesis using first_fit_result [OF assms(2)] by simp
  next
    case 2
    have "mem_best_fit m p req = Some (best_of xs req 0 (- 1))"
      using best_fit_loop_list [OF assms(2)] by (simp add: mem_best_fit_def)
    with 2 best_of_member [of xs req 0 "- 1"] show ?thesis by auto
  next
    case 3
    have "mem_worst_fit m p req = Some (worst_of xs req 0 0)"
      using worst_fit_loop_list [OF assms(2)] by (simp add: mem_worst_fit_def)
    with 3 worst_of_member [of xs req 0 0] show ?thesis by auto
  qed
qed

lemma chain_pre_less:
  assumes "chain lo hi pre" "cend lo pre \<le> unat a"
  shows "\<forall>x\<in>set pre. fst x < a"
proof
  fix x assume xin: "x \<in> set pre"
  obtain b t where x: "x = (b, t)" by (cases x)
  with xin have "(b, t) \<in> set pre" by simp
  from chain_members [OF assms(1) this] assms(2) have "unat b < unat a" by simp
  then show "fst x < a" by (simp add: x word_less_nat_alt)
qed

section \<open>\<^verbatim>\<open>mem_alloc\<close>\<close>

lemma free_list_okD:
  assumes "free_list_ok st xs"
  shows "8 \<le> unat (free_block_list_addr st)"
    and "unat (free_block_list_addr st) + 8 \<le> unat (memory_area st)"
    and "unat (MEM_SPACE_MAX st) + 1 < 2 ^ 64"
    and "fseg (mem st) (load64 (mem st) (free_block_list_addr st)) xs 0"
    and "chain (unat (memory_area st)) (unat (MEM_SPACE_MAX st) + 1) xs"
    and "MEM_SPACE_MIN st = memory_area st + 16"
    and "unat (memory_area st) \<le> unat (MEM_SPACE_MAX st)"
  using assms by (simp_all add: free_list_ok_def flist_fseg rd_def consts_simps)

lemma search_block_chain:
  assumes "chain lo hi (pre @ (a, s) # post)"
    and "fseg m (load64 m H) (pre @ (a, s) # post) 0"
  shows "search_block m a H = Some (slot_after H pre)"
proof -
  from assms(1) have c: "chain lo hi pre" "cend lo pre \<le> unat a" by (simp_all add: chain_append)
  from assms(2) have f: "fseg m (load64 m H) pre a" by (auto simp: fseg_append)
  show ?thesis
    using search_block_slot [OF f chain_pre_less [OF c]] by simp
qed

text \<open>The request is served from the block \<open>(a, s)\<close> without a split.\<close>

lemma mem_alloc_whole:
  assumes ok: "free_list_ok st (pre @ (a, s) # post)"
    and fit: "current_fit_function st (mem st) (rd st (free_block_list_addr st))
               (k + SECRET_SIZE + MEM_FREE_ALL_DIFF) = Some a"
    and nosplit: "s - (k + 8) \<le> 24"
  defines "H \<equiv> free_block_list_addr st"
  defines "M \<equiv> store64 (store64 (mem st) (slot_after H pre) (load64 (mem st) (a + off_next)))
                  (a + off_next) 0"
  shows "mem_alloc st k =
           Some (a + 16,
                 st\<lparr>mem := store64 (store64 (store64 M a s) (a + 8) (a XOR secret_number st))
                               (a + 16 + s - 8) (a XOR secret_number st)\<rparr>)"
    and "fseg M (load64 M H) (pre @ post) 0"
proof -
  note g = free_list_okD [OF ok, folded H_def]
  from g(4) have a0: "a \<noteq> 0" by (auto simp: fseg_append)
  have sb: "search_block (mem st) a H = Some (slot_after H pre)"
    using search_block_chain [OF g(5) g(4)] .
  have hi: "unat (MEM_SPACE_MAX st) + 1 \<le> 2 ^ 64" using g(3) by simp
  note re = remove_effect [OF g(5) hi g(2) g(4)]
  have sl: "rd st (slot_after H pre) = a"
    using g(4) fseg_slot [of "mem st" H pre a] by (auto simp: fseg_append rd_def)
  have m1: "mem (remove_block st a (slot_after H pre)) = M"
    using remove_block_mem [OF sl] by (simp add: M_def)
  have r1: "rd (remove_block st a (slot_after H pre)) a = s"
    using re(2) m1 by (simp add: rd_def M_def)
  show "fseg M (load64 M H) (pre @ post) 0"
    using re(1) by (simp add: M_def)
  show "mem_alloc st k =
           Some (a + 16,
                 st\<lparr>mem := store64 (store64 (store64 M a s) (a + 8) (a XOR secret_number st))
                               (a + 16 + s - 8) (a XOR secret_number st)\<rparr>)"
    using fit a0 sb nosplit r1 m1
    by (simp add: mem_alloc_def Let_def H_def consts_simps wr_def remove_block_def sl)
qed

lemma insert_block_as_update: "insert_block st b l = st\<lparr>mem := mem (insert_block st b l)\<rparr>"
  by (simp add: insert_block_def Let_def wr_def)

lemma remove_block_as_update: "remove_block st b l = st\<lparr>mem := mem (remove_block st b l)\<rparr>"
  by (simp add: remove_block_def Let_def wr_def)

text \<open>The request is served from the block \<open>(a, s)\<close> with a split.\<close>

lemma mem_alloc_split:
  assumes ok: "free_list_ok st (pre @ (a, s) # post)"
    and fit: "current_fit_function st (mem st) (rd st (free_block_list_addr st))
               (k + SECRET_SIZE + MEM_FREE_ALL_DIFF) = Some a"
    and fits: "k + 8 \<le> s"
    and split: "\<not> s - (k + 8) \<le> 24"
  defines "H \<equiv> free_block_list_addr st"
  defines "e \<equiv> k + 8"
  defines "nb \<equiv> a + (k + 8) + 16"
  defines "M1 \<equiv> store64 (store64 (mem st) (slot_after H pre) (load64 (mem st) (a + off_next)))
                  (a + off_next) 0"
  defines "M2 \<equiv> store64 (store64 M1 nb (s - e - 16)) (nb + off_next) 0"
  defines "M \<equiv> store64 (store64 M2 (nb + off_next) (load64 M2 (slot_after H pre)))
                  (slot_after H pre) nb"
  shows "mem_alloc st k =
           Some (a + 16,
                 st\<lparr>mem := store64 (store64 (store64 M a e) (a + 8) (a XOR secret_number st))
                               (a + 16 + e - 8) (a XOR secret_number st)\<rparr>)"
    and "fseg M (load64 M H) (pre @ (nb, s - e - 16) # post) 0"
    and "chain (unat (memory_area st)) (unat (MEM_SPACE_MAX st) + 1) (pre @ (nb, s - e - 16) # post)"
    and "unat nb = unat a + unat e + 16"
    and "unat (s - e - 16) = unat s - unat e - 16"
    and "24 < unat s - unat e"
proof -
  let ?lo = "unat (memory_area st)"
  let ?hi = "unat (MEM_SPACE_MAX st) + 1"
  let ?sl = "slot_after H pre"
  let ?r = "s - e - 16"
  note g = free_list_okD [OF ok, folded H_def]
  from g(4) have a0: "a \<noteq> 0" by (auto simp: fseg_append)
  have hi: "?hi \<le> 2 ^ 64" using g(3) by simp
  from g(5) have c: "chain ?lo ?hi pre" "cend ?lo pre \<le> unat a" "unat a + 16 + unat s \<le> ?hi"
    "chain (unat a + 16 + unat s + 1) ?hi post"
    by (simp_all add: chain_append)
  \<comment> \<open>sizes\<close>
  have es: "unat e \<le> unat s" using fits by (simp add: e_def word_le_nat_alt)
  have se: "unat (s - e) = unat s - unat e"
    using fits by (simp add: e_def unat_sub)
  have gt: "24 < unat s - unat e"
    using split se by (simp add: e_def word_le_nat_alt)
  then show "24 < unat s - unat e" .
  have le16: "(16 :: 64 word) \<le> s - e"
    using gt se by (simp add: word_le_nat_alt)
  show r: "unat ?r = unat s - unat e - 16"
    using unat_sub [OF le16] se by simp
  have ae: "unat (a + e) = unat a + unat e"
    using c(3) g(3) es by (simp add: unat_plus_nowrap)
  show nb: "unat nb = unat a + unat e + 16"
    using ae c(3) g(3) es by (simp add: nb_def e_def [symmetric] unat_plus_nowrap)
  have nb8: "unat (nb + 8) = unat nb + 8"
    using nb c(3) g(3) gt by (simp add: unat_plus_nowrap)
  have nb0: "nb \<noteq> 0" using nb by auto
  show ch': "chain ?lo ?hi (pre @ (nb, ?r) # post)"
    using c nb r gt by (simp add: chain_append)
  \<comment> \<open>the search and the removal\<close>
  have sb: "search_block (mem st) a H = Some ?sl"
    using search_block_chain [OF g(5) g(4)] .
  note re = remove_effect [OF g(5) hi g(2) g(4), folded M1_def]
  have sl: "rd st ?sl = a"
    using g(4) fseg_slot [of "mem st" H pre a] by (auto simp: fseg_append rd_def)
  let ?st1 = "remove_block st a ?sl"
  have m1: "mem ?st1 = M1"
    using remove_block_mem [OF sl] by (simp add: M1_def)
  have r1: "rd ?st1 a = s"
    using re(2) m1 by (simp add: rd_def)
  \<comment> \<open>the header of the new free block\<close>
  let ?sb = "wr (wr ?st1 nb ?r) (nb + off_next) 0"
  have msb: "mem ?sb = M2" by (simp add: M2_def m1)
  have dH: "disj8 nb H" "disj8 (nb + 8) H"
    using nb nb8 g(2) c(2,3) cend_ge [OF c(1)] g(3) gt by (auto intro!: disj8_natI)
  have cpre: "cell_clear nb pre" "cell_clear (nb + 8) pre"
    using nb nb8 c(2,3) g(3) gt by (auto intro!: cell_clear_after [OF c(1)])
  have cpost: "cell_clear nb post" "cell_clear (nb + 8) post"
    using nb nb8 c(3) g(3) gt hi by (auto intro!: cell_clear_before [OF c(4)])
  from re(1) obtain q where f1: "fseg M1 (load64 M1 H) pre q" "fseg M1 q post 0"
    by (auto simp: fseg_append)
  have f2: "fseg M2 (load64 M2 H) (pre @ post) 0"
    using f1
    by (auto simp: M2_def off_next_def fseg_append lseg_frame [OF dH(1) cpre(1)]
          lseg_frame [OF dH(2) cpre(2)] fseg_store_frame [OF cpost(1)]
          fseg_store_frame [OF cpost(2)])
  have lnb: "load64 M2 nb = ?r"
    by (simp add: M2_def off_next_def load64_store64_disj disj8_sym [of "nb + 8" nb]
          load64_store64_same)
  have fsb: "free_block_list_addr ?sb = H" "unat (memory_area ?sb) = ?lo"
    by (simp_all add: H_def)
  note ie = insert_effect_plain [OF ch' g(3) g(2) g(1) fsb, unfolded msb, OF f2 lnb nb0,
      folded M_def]
  show "fseg M (load64 M H) (pre @ (nb, ?r) # post) 0"
    using ie(2) .
  let ?st2 = "insert_block ?sb nb ?sl"
  have st2: "?st2 = st\<lparr>mem := M\<rparr>"
    using ie(1) insert_block_as_update [of ?sb nb ?sl] remove_block_as_update [of st a ?sl]
    by (simp add: wr_def)
  have sp: "\<not> rd ?st1 a - (k + 8) \<le> 24"
    using split r1 by simp
  show "mem_alloc st k =
           Some (a + 16,
                 st\<lparr>mem := store64 (store64 (store64 M a e) (a + 8) (a XOR secret_number st))
                               (a + 16 + e - 8) (a XOR secret_number st)\<rparr>)"
    using fit a0 sb split st2
    by (simp add: mem_alloc_def Let_def H_def [symmetric] consts_simps r1 wr_def nb_def e_def)
qed

section \<open>States of the free list\<close>

lemma mem_init_ok:
  assumes H: "8 \<le> unat (free_block_list_addr st0)"
      "unat (free_block_list_addr st0) + 8 \<le> unat area"
    and n: "16 \<le> unat n" "unat area + unat n < 2 ^ 64"
  shows "free_list_ok (mem_init st0 area n) [(area, n - 16)]"
proof -
  let ?H = "free_block_list_addr st0"
  have a8: "unat (area + 8) = unat area + 8"
    using n by (simp add: unat_plus_nowrap)
  have d: "disj8 ?H area" "disj8 ?H (area + 8)"
    using H n a8 by (auto intro!: disj8_natI)
  note r = mem_init_reads [OF d, of n]
  have n1: "unat (area + n - 1) = unat area + unat n - 1"
  proof -
    have "unat (area + n) = unat area + unat n" using n by (simp add: unat_plus_nowrap)
    moreover have "area + n \<noteq> 0" using calculation n by auto
    ultimately show ?thesis by (simp add: unat_minus_one)
  qed
  have n16: "unat (n - 16) = unat n - 16"
    using n(1) by (simp add: unat_sub word_le_nat_alt)
  have a0: "area \<noteq> 0" using H by auto
  show ?thesis
    using H n n1 n16 a0 r
    by (simp add: free_list_ok_def consts_simps rd_def [symmetric])
qed

lemma flist_store_gap:
  assumes ch: "chain lo hi (pre @ post)" and hi: "hi \<le> 2 ^ 64" and H: "unat H + 8 \<le> lo"
    and c: "cend lo pre \<le> unat c" "chain (unat c + 8) hi post" "unat c + 8 \<le> 2 ^ 64"
  shows "fseg (store64 m c v) (load64 (store64 m c v) H) (pre @ post) q
           \<longleftrightarrow> fseg m (load64 m H) (pre @ post) q"
proof -
  from ch have p: "chain lo hi pre" by (simp add: chain_append)
  have "lo \<le> unat c" using cend_ge [OF p] c(1) by simp
  then have dH: "disj8 c H" using H c(3) by (intro disj8_natI) simp
  have c1: "cell_clear c pre"
    using c(1,3) by (intro cell_clear_after [OF p]) simp_all
  have c2: "cell_clear c post"
    using hi by (intro cell_clear_before [OF c(2)]) simp_all
  show ?thesis
    by (rule lseg_frame [OF dH]) (simp add: c1 c2)
qed

text \<open>The state after an allocation with a split.\<close>

lemma mem_alloc_split_post:
  fixes g e :: "64 word"
  assumes ch: "chain lo hi (pre @ (nb, r) # post)" and hi: "hi < 2 ^ 64" and H: "unat H + 8 \<le> lo"
    and f: "fseg M (load64 M H) (pre @ (nb, r) # post) 0"
    and a: "cend lo pre \<le> unat a" "unat nb = unat a + unat e + 16"
  defines "Mf \<equiv> store64 (store64 (store64 M a e) (a + 8) g) (a + 16 + e - 8) g"
  shows "fseg Mf (load64 Mf H) (pre @ (nb, r) # post) 0"
    and "load64 Mf a = e"
    and "load64 Mf (a + 16 + e - 8) = g"
    and "8 \<le> unat e \<Longrightarrow> load64 Mf (a + 8) = g"
proof -
  have hi': "hi \<le> 2 ^ 64" using hi by simp
  from ch have c: "unat nb + 16 + unat r \<le> hi" "chain (unat nb + 16 + unat r + 1) hi post"
    by (simp_all add: chain_append)
  have a8: "unat (a + 8) = unat a + 8"
    using a(2) c(1) hi by (simp add: unat_plus_nowrap)
  have t: "a + 16 + e - 8 = a + 8 + e" by simp
  have ta: "unat (a + 8 + e) = unat a + 8 + unat e"
    using a(2) c(1) hi a8 by (simp add: unat_plus_nowrap)
  have cn: "chain (unat a + unat e + 16) hi ((nb, r) # post)"
    using ch a(2) by (simp add: chain_append)
  have g1: "fseg (store64 M a e) (load64 (store64 M a e) H) (pre @ (nb, r) # post) 0"
    using f a c hi
    by (subst flist_store_gap [OF ch hi' H]) (auto intro: chain_mono [OF cn])
  have g2: "fseg (store64 (store64 M a e) (a + 8) g)
              (load64 (store64 (store64 M a e) (a + 8) g) H) (pre @ (nb, r) # post) 0"
    using g1 a c hi a8
    by (subst flist_store_gap [OF ch hi' H]) (auto intro: chain_mono [OF cn])
  show "fseg Mf (load64 Mf H) (pre @ (nb, r) # post) 0"
    unfolding Mf_def t
    using g2 a c hi ta
    by (subst flist_store_gap [OF ch hi' H]) (auto intro: chain_mono [OF cn])
  have d1: "disj8 (a + 8 + e) a"
    using ta a(2) c(1) hi by (intro disj8_natI) simp
  show "load64 Mf a = e"
    unfolding Mf_def t
    by (simp add: load64_store64_disj [OF d1] load64_store64_disj disj8_sym [of "a + 8" a]
          load64_store64_same)
  show "load64 Mf (a + 16 + e - 8) = g"
    unfolding Mf_def by (simp add: load64_store64_same)
  show "load64 Mf (a + 8) = g" if "8 \<le> unat e"
  proof -
    have "disj8 (a + 8 + e) (a + 8)"
      using ta a8 that a(2) c(1) hi by (intro disj8_natI) simp
    then show ?thesis
      unfolding Mf_def t by (simp add: load64_store64_disj load64_store64_same)
  qed
qed

section \<open>Overflow of the effective size\<close>

lemma mem_init_first_fit:
  assumes H: "8 \<le> unat (free_block_list_addr st0)"
      "unat (free_block_list_addr st0) + 8 \<le> unat area"
    and n: "16 \<le> unat n" "unat area + unat n < 2 ^ 64"
    and req: "req \<le> n - 16"
  shows "current_fit_function (mem_init st0 area n) (mem (mem_init st0 area n))
           (rd (mem_init st0 area n) (free_block_list_addr (mem_init st0 area n))) req = Some area"
proof -
  have a8: "unat (area + 8) = unat area + 8"
    using n by (simp add: unat_plus_nowrap)
  have d: "disj8 (free_block_list_addr st0) area" "disj8 (free_block_list_addr st0) (area + 8)"
    using H n a8 by (auto intro!: disj8_natI)
  note r = mem_init_reads [OF d, of n]
  have a0: "area \<noteq> 0" using H by auto
  have "mem_first_fit (mem (mem_init st0 area n)) area req = Some area"
    using r(2) a0 req by (subst mem_first_fit.simps) (simp add: rd_def)
  then show ?thesis
    using r(1) by simp
qed

text \<open>
  C9. \<^verbatim>\<open>mem_alloc\<close> adds the guard size to the request modulo \<open>2 ^ 64\<close>. For a request
  \<open>k \<ge> 2 ^ 64 - 8\<close> the effective size is \<open>k + 8 - 2 ^ 64 < 8\<close>, and on a freshly
  initialised arena of at least 64 bytes the call succeeds: it returns the payload address
  \<open>area + 16\<close> of a block whose size field is that effective size.
\<close>

theorem mem_alloc_size_wraps:
  assumes H: "8 \<le> unat (free_block_list_addr st0)"
      "unat (free_block_list_addr st0) + 8 \<le> unat area"
    and n: "64 \<le> unat n" "unat area + unat n < 2 ^ 64"
    and k: "2 ^ 64 - 8 \<le> unat k"
  shows "unat (k + SECRET_SIZE) = unat k + 8 - 2 ^ 64 \<and>
         (\<exists>st'. mem_alloc (mem_init st0 area n) k = Some (area + MEM_ALL_BLOCK_SIZE, st') \<and>
                rd st' area = k + SECRET_SIZE)"
proof -
  let ?st = "mem_init st0 area n"
  let ?e = "k + 8"
  have kb: "unat k < 2 ^ 64" using unsigned_less [of k] by simp
  have e: "unat ?e = unat k + 8 - 2 ^ 64"
    using k kb by (simp add: unat_plus_if_size word_size)
  have e7: "unat ?e < 8" using e kb by simp
  have n16: "unat (n - 16) = unat n - 16"
    using n(1) by (simp add: unat_sub word_le_nat_alt)
  have fits: "?e \<le> n - 16"
    using e7 n16 n(1) by (simp add: word_le_nat_alt)
  have "unat (n - 16 - ?e) = unat (n - 16) - unat ?e"
    by (rule unat_sub [OF fits])
  then have "24 < unat (n - 16 - ?e)"
    using e7 n(1) n16 by simp
  then have split: "\<not> n - 16 - ?e \<le> 24"
    by (simp only: word_le_nat_alt not_le) simp
  have n': "16 \<le> unat n" using n(1) by simp
  have ok: "free_list_ok ?st ([] @ (area, n - 16) # [])"
    using mem_init_ok [OF H n' n(2)] by simp
  have fit: "current_fit_function ?st (mem ?st) (rd ?st (free_block_list_addr ?st))
               (k + SECRET_SIZE + MEM_FREE_ALL_DIFF) = Some area"
    using mem_init_first_fit [OF H n' n(2), of ?e] fits by (simp add: consts_simps)
  note as = mem_alloc_split [OF ok fit fits split]
  note g = free_list_okD [OF ok]
  have "rd (?st\<lparr>mem := store64 (store64 (store64
            (store64 (store64
               (store64 (store64
                  (store64 (store64 (mem ?st) (slot_after (free_block_list_addr ?st) [])
                     (load64 (mem ?st) (area + off_next))) (area + off_next) 0)
                  (area + ?e + 16) (n - 16 - ?e - 16)) (area + ?e + 16 + off_next) 0)
               (area + ?e + 16 + off_next)
               (load64 (store64 (store64
                  (store64 (store64 (mem ?st) (slot_after (free_block_list_addr ?st) [])
                     (load64 (mem ?st) (area + off_next))) (area + off_next) 0)
                  (area + ?e + 16) (n - 16 - ?e - 16)) (area + ?e + 16 + off_next) 0)
                  (slot_after (free_block_list_addr ?st) [])))
            (slot_after (free_block_list_addr ?st) []) (area + ?e + 16))
          area ?e) (area + 8) (area XOR secret_number ?st))
          (area + 16 + ?e - 8) (area XOR secret_number ?st)\<rparr>) area = ?e"
    unfolding rd_def
    using mem_alloc_split_post(2) [OF as(3) g(3) g(2) as(2) _ as(4)] g(5)
    by simp
  with as(1) e show ?thesis
    by (simp add: consts_simps)
qed

theorem mem_alloc_size_wraps_witness:
  "\<exists>st'. mem_alloc (mem_init zero_heap 0x1000 4096) (- 1) = Some (0x1010, st') \<and>
         rd st' 0x1000 = 7"
proof -
  have "unat (- 1 :: 64 word) = 2 ^ 64 - 1"
    by (simp add: unsigned_minus_1_eq_mask mask_eq_exp_minus_1)
  then have k: "2 ^ 64 - 8 \<le> unat (- 1 :: 64 word)" by simp
  show ?thesis
    using mem_alloc_size_wraps [of zero_heap "0x1000" 4096 "- 1", OF _ _ _ _ k]
    by (simp add: zero_heap_def consts_simps)
qed

section \<open>\<^verbatim>\<open>mem_free\<close>\<close>

text \<open>Writing the header and the trailer of an allocated block between two parts of the list.\<close>

lemma block_header_post:
  fixes g e :: "64 word"
  assumes ch: "chain lo hi (pre @ post)" and hi: "hi < 2 ^ 64" and H: "unat H + 8 \<le> lo"
    and f: "fseg M (load64 M H) (pre @ post) 0"
    and a: "cend lo pre \<le> unat a" "unat a + 16 + unat e \<le> hi"
      "chain (unat a + 16 + unat e) hi post"
  defines "Mf \<equiv> store64 (store64 (store64 M a e) (a + 8) g) (a + 16 + e - 8) g"
  shows "fseg Mf (load64 Mf H) (pre @ post) 0"
    and "load64 Mf a = e"
    and "load64 Mf (a + 16 + e - 8) = g"
    and "8 \<le> unat e \<Longrightarrow> load64 Mf (a + 8) = g"
proof -
  have hi': "hi \<le> 2 ^ 64" using hi by simp
  have a8: "unat (a + 8) = unat a + 8"
    using a(2) hi by (simp add: unat_plus_nowrap)
  have t: "a + 16 + e - 8 = a + 8 + e" by simp
  have ta: "unat (a + 8 + e) = unat a + 8 + unat e"
    using a(2) hi a8 by (simp add: unat_plus_nowrap)
  have g1: "fseg (store64 M a e) (load64 (store64 M a e) H) (pre @ post) 0"
    using f a hi
    by (subst flist_store_gap [OF ch hi' H]) (auto intro: chain_mono [OF a(3)])
  have g2: "fseg (store64 (store64 M a e) (a + 8) g)
              (load64 (store64 (store64 M a e) (a + 8) g) H) (pre @ post) 0"
    using g1 a hi a8
    by (subst flist_store_gap [OF ch hi' H]) (auto intro: chain_mono [OF a(3)])
  show "fseg Mf (load64 Mf H) (pre @ post) 0"
    unfolding Mf_def t
    using g2 a hi ta
    by (subst flist_store_gap [OF ch hi' H]) (auto intro: chain_mono [OF a(3)])
  have d1: "disj8 (a + 8 + e) a"
    using ta a(2) hi by (intro disj8_natI) simp
  show "load64 Mf a = e"
    unfolding Mf_def t
    by (simp add: load64_store64_disj [OF d1] load64_store64_disj disj8_sym [of "a + 8" a]
          load64_store64_same)
  show "load64 Mf (a + 16 + e - 8) = g"
    unfolding Mf_def by (simp add: load64_store64_same)
  show "load64 Mf (a + 8) = g" if "8 \<le> unat e"
  proof -
    have "disj8 (a + 8 + e) (a + 8)"
      using ta a8 that a(2) hi by (intro disj8_natI) simp
    then show ?thesis
      unfolding Mf_def t by (simp add: load64_store64_disj load64_store64_same)
  qed
qed

lemma mem_free_fields:
  "mem_free st z = Some (Inr st') \<Longrightarrow>
   free_block_list_addr st' = free_block_list_addr st \<and> memory_area st' = memory_area st \<and>
   MEM_SPACE_MIN st' = MEM_SPACE_MIN st \<and> MEM_SPACE_MAX st' = MEM_SPACE_MAX st \<and>
   secret_number st' = secret_number st \<and> current_fit_function st' = current_fit_function st"
  by (auto simp: mem_free_def Let_def split: if_splits option.splits)

text \<open>
  Freeing the allocated block at \<open>a\<close> that lies between \<open>pre\<close> and \<open>post\<close> and is not
  adjacent to the last block of \<open>pre\<close>.
\<close>

lemma mem_free_effect:
  assumes ok: "free_list_ok st (pre @ post)"
    and blk: "cend (unat (memory_area st)) pre \<le> unat a"
      "unat a + 16 + unat sz \<le> unat (MEM_SPACE_MAX st) + 1"
      "chain (unat a + 16 + unat sz) (unat (MEM_SPACE_MAX st) + 1) post"
    and hdr: "rd st a = sz" "rd st (a + 8) = a XOR secret_number st"
      "rd st (a + 16 + sz - 8) = a XOR secret_number st"
    and sz: "8 \<le> unat sz"
  shows "\<exists>st'. mem_free st (a + 16) = Some (Inr st') \<and>
               free_list_ok st' (pre @ joined_right a sz post)"
proof -
  let ?H = "free_block_list_addr st"
  let ?lo = "unat (memory_area st)"
  let ?hi = "unat (MEM_SPACE_MAX st) + 1"
  let ?sl = "slot_after ?H pre"
  note g = free_list_okD [OF ok]
  have hi': "?hi \<le> 2 ^ 64" using g(3) by simp
  from g(5) have c: "chain ?lo ?hi pre" by (simp add: chain_append)
  have lo: "?lo \<le> unat a" using cend_ge [OF c] blk(1) by simp
  have a16: "unat (a + 16) = unat a + 16"
    using blk(2) g(3) by (simp add: unat_plus_nowrap)
  have a8: "unat (a + 8) = unat a + 8"
    using blk(2) g(3) by (simp add: unat_plus_nowrap)
  have B16: "unat (memory_area st + 16) = ?lo + 16"
    using lo blk(2) g(3) by (simp add: unat_plus_nowrap)
  have a0: "a \<noteq> 0" using lo g(1,2) by auto
  \<comment> \<open>the checks on the address\<close>
  have z0: "a + 16 \<noteq> 0" using a16 by auto
  have zmin: "\<not> a + 16 < MEM_SPACE_MIN st"
    using g(6) B16 a16 lo by (simp add: word_less_nat_alt)
  have zmax: "\<not> a + 16 \<ge> MEM_SPACE_MAX st"
    using a16 blk(2) sz by (simp add: word_le_nat_alt)
  \<comment> \<open>the header of the free block\<close>
  let ?m2 = "store64 (store64 (mem st) a sz) (a + 8) 0"
  let ?st2 = "wr (wr st a sz) (a + 8) 0"
  have f2: "fseg ?m2 (load64 ?m2 ?H) (pre @ post) 0"
    using g(4) blk a8 g(3)
    by (simp add: flist_store_gap [OF g(5) hi' g(2)] chain_mono [OF blk(3)])
  have la: "load64 ?m2 a = sz"
    by (simp add: load64_store64_disj disj8_sym [of "a + 8" a] load64_store64_same)
  from f2 obtain q where fq: "fseg ?m2 (load64 ?m2 ?H) pre q" "fseg ?m2 q post 0"
    by (auto simp: fseg_append)
  have qa: "q = 0 \<or> \<not> q < a"
  proof (cases post)
    case Nil
    with fq(2) show ?thesis by simp
  next
    case (Cons x post')
    obtain r t where x: "x = (r, t)" by (cases x)
    from fq(2) blk(3) have "q = r" "unat a + 16 + unat sz \<le> unat r"
      by (simp_all add: Cons x)
    then show ?thesis by (simp add: word_less_nat_alt)
  qed
  have sb: "search_block ?m2 a ?H = Some ?sl"
    using search_block_slot [OF fq(1) chain_pre_less [OF c blk(1)] qa] .
  have fs: "free_block_list_addr ?st2 = ?H" "unat (memory_area ?st2) = ?lo"
    by simp_all
  have ms: "mem ?st2 = ?m2" by simp
  \<comment> \<open>the insertion\<close>
  have ins: "free_list_ok (insert_block ?st2 a ?sl) (pre @ joined_right a sz post)"
  proof (cases "\<exists>r t post'. post = (r, t) # post' \<and> unat r = unat a + 16 + unat sz")
    case True
    then obtain r t post' where p: "post = (r, t) # post'" "unat r = unat a + 16 + unat sz"
      by blast
    from blk(3) have cr: "unat r + 16 + unat t \<le> ?hi" "chain (unat r + 16 + unat t + 1) ?hi post'"
      by (simp_all add: p)
    note ie = insert_effect_fuse_right [OF c blk(1) p(2) [symmetric] cr g(3) g(2) g(1) fs,
        unfolded ms, OF f2 [unfolded p(1)] la a0]
    have "chain ?lo ?hi (pre @ (a, sz + (MEM_FREE_BLOCK_SIZE + t)) # post')"
      using c blk(1) lo p(2) cr ie(3) by (simp add: chain_append)
    then show ?thesis
      using g ie(1,2) p
      by (simp add: free_list_ok_def flist_fseg rd_def consts_simps)
  next
    case False
    have cp: "chain (unat a + 16 + unat sz + 1) ?hi post"
    proof (cases post)
      case Nil
      then show ?thesis by simp
    next
      case (Cons x post')
      obtain r t where x: "x = (r, t)" by (cases x)
      from False have "unat r \<noteq> unat a + 16 + unat sz" by (simp add: Cons x)
      with blk(3) show ?thesis by (simp add: Cons x)
    qed
    have ch: "chain ?lo ?hi (pre @ (a, sz) # post)"
      using c blk(1,2) lo cp by (simp add: chain_append)
    note ie = insert_effect_plain [OF ch g(3) g(2) g(1) fs, unfolded ms, OF f2 la a0]
    have j: "joined_right a sz post = (a, sz) # post"
      using False by (cases post) auto
    show ?thesis
      using g ie ch
      by (simp add: j free_list_ok_def flist_fseg rd_def consts_simps)
  qed
  have "mem_free st (a + 16) = Some (Inr (insert_block ?st2 a ?sl))"
    using z0 zmin zmax hdr sb
    by (simp add: mem_free_def Let_def consts_simps)
  with ins show ?thesis by blast
qed

section \<open>Allocation followed by release\<close>

lemma mem_alloc_null:
  assumes "current_fit_function st (mem st) (rd st (free_block_list_addr st))
             (k + SECRET_SIZE + MEM_FREE_ALL_DIFF) = Some 0"
  shows "mem_alloc st k = Some (0, st)"
  using assms by (simp add: mem_alloc_def Let_def)

lemma mem_free_null: "mem_free st 0 = Some (Inr st)"
  by (simp add: mem_free_def)

lemma free_list_ok_mem_update:
  "free_list_ok (st\<lparr>mem := M\<rparr>) xs \<longleftrightarrow>
     8 \<le> unat (free_block_list_addr st) \<and>
     unat (free_block_list_addr st) + 8 \<le> unat (memory_area st) \<and>
     unat (memory_area st) \<le> unat (MEM_SPACE_MAX st) \<and>
     unat (MEM_SPACE_MAX st) + 1 < 2 ^ 64 \<and>
     MEM_SPACE_MIN st = memory_area st + MEM_MIN_BLOCK_SIZE \<and>
     fseg M (load64 M (free_block_list_addr st)) xs 0 \<and>
     chain (unat (memory_area st)) (unat (MEM_SPACE_MAX st) + 1) xs"
  by (simp add: free_list_ok_def flist_fseg rd_def)

text \<open>
  The outcome of \<^verbatim>\<open>mem_alloc\<close> when the policy picks the block \<open>(a, s)\<close> and the effective
  size does not wrap around: the state of the free list and of the new block's header.
\<close>

lemma mem_alloc_result:
  assumes ok: "free_list_ok st (pre @ (a, s) # post)"
    and fit: "current_fit_function st (mem st) (rd st (free_block_list_addr st))
               (k + SECRET_SIZE + MEM_FREE_ALL_DIFF) = Some a"
    and fits: "k + 8 \<le> s"
    and k: "unat k + 8 < 2 ^ 64"
  defines "e' \<equiv> (if s - (k + 8) \<le> 24 then s else k + 8)"
  defines "xs' \<equiv> (if s - (k + 8) \<le> 24 then pre @ post
                   else pre @ (a + (k + 8) + 16, s - (k + 8) - 16) # post)"
  shows "\<exists>st'. mem_alloc st k = Some (a + 16, st') \<and> free_list_ok st' xs' \<and>
           rd st' a = e' \<and> rd st' (a + 8) = a XOR secret_number st' \<and>
           rd st' (a + 16 + e' - 8) = a XOR secret_number st' \<and>
           memory_area st' = memory_area st \<and> MEM_SPACE_MAX st' = MEM_SPACE_MAX st \<and>
           MEM_SPACE_MIN st' = MEM_SPACE_MIN st \<and>
           free_block_list_addr st' = free_block_list_addr st"
proof -
  let ?H = "free_block_list_addr st"
  let ?lo = "unat (memory_area st)"
  let ?hi = "unat (MEM_SPACE_MAX st) + 1"
  note g = free_list_okD [OF ok]
  have ok': "8 \<le> unat ?H \<and> unat ?H + 8 \<le> ?lo \<and> ?lo \<le> unat (MEM_SPACE_MAX st) \<and>
      ?hi < 2 ^ 64 \<and> MEM_SPACE_MIN st = memory_area st + MEM_MIN_BLOCK_SIZE"
    using ok by (simp add: free_list_ok_def)
  from g(5) have c: "chain ?lo ?hi pre" "cend ?lo pre \<le> unat a" "unat a + 16 + unat s \<le> ?hi"
    "chain (unat a + 16 + unat s + 1) ?hi post"
    by (simp_all add: chain_append)
  have e8: "unat (k + 8) = unat k + 8" using k by (simp add: unat_plus_nowrap)
  have es: "unat (k + 8) \<le> unat s" using fits by (simp add: word_le_nat_alt)
  show ?thesis
  proof (cases "s - (k + 8) \<le> 24")
    case True
    note w = mem_alloc_whole [OF ok fit True]
    have ch: "chain ?lo ?hi (pre @ post)"
      using c chain_mono [OF c(4), of "cend ?lo pre" ?hi] by (simp add: chain_append)
    have c4: "chain (unat a + 16 + unat s) ?hi post"
      using chain_mono [OF c(4)] by simp
    note p = block_header_post [OF ch g(3) g(2) w(2) c(2) c(3) c4, of "a XOR secret_number st"]
    have s8: "8 \<le> unat s" using es e8 by simp
    show ?thesis
      using w(1) p(1,2,3) p(4) [OF s8] ok' ch True
      by (simp add: e'_def xs'_def free_list_ok_mem_update rd_def)
  next
    case False
    note sp = mem_alloc_split [OF ok fit fits False]
    have cn: "chain ?lo ?hi (pre @ (a + (k + 8) + 16, s - (k + 8) - 16) # post)"
      using sp(3) .
    have a2: "unat a + 16 + unat (k + 8) \<le> ?hi"
      using c(3) es by simp
    have a3: "chain (unat a + 16 + unat (k + 8)) ?hi ((a + (k + 8) + 16, s - (k + 8) - 16) # post)"
      using cn sp(4) by (simp add: chain_append)
    note p = block_header_post [OF cn g(3) g(2) sp(2) c(2) a2 a3, of "a XOR secret_number st"]
    have k8: "8 \<le> unat (k + 8)" using e8 by simp
    show ?thesis
      using sp(1) p(1,2,3) p(4) [OF k8] ok' cn False
      by (simp add: e'_def xs'_def free_list_ok_mem_update rd_def)
  qed
qed

text \<open>
  C5 as stated (for every user size) fails: a request of \<open>2 ^ 64 - 1\<close> bytes on the initial
  heap wraps to an effective size of 7, the trailer written by \<^verbatim>\<open>mem_alloc\<close> overlaps the
  header guard, and \<^verbatim>\<open>mem_free\<close> of the returned pointer aborts.
\<close>

theorem free_alloc_wrapped_counterexample:
  "free_alloc (mem_init zero_heap 0x1000 4096) (- 1) = Some (Inl AssertionFailed)"
  by code_simp

text \<open>
  C5, amended. In a state whose free list is \<open>xs\<close>, with one of the three provided
  policies and a user size \<open>k\<close> with \<open>k + 8 < 2 ^ 64\<close>: \<^verbatim>\<open>mem_alloc\<close> returns, \<^verbatim>\<open>mem_free\<close>
  of its result returns normally, and the free list is again \<open>xs\<close> (the same blocks with
  the same sizes); when \<^verbatim>\<open>mem_alloc\<close> returns \<^verbatim>\<open>NULL\<close> the state is unchanged.
\<close>

theorem free_alloc_restores_free_list:
  assumes ok: "free_list_ok st xs"
    and pol: "provided_policy (current_fit_function st)"
    and k: "unat k + 8 < 2 ^ 64"
  shows "\<exists>st2. free_alloc st k = Some (Inr st2) \<and> free_list_ok st2 xs \<and>
           (mem_alloc st k = Some (0, st) \<longrightarrow> st2 = st)"
proof -
  let ?H = "free_block_list_addr st"
  let ?lo = "unat (memory_area st)"
  let ?hi = "unat (MEM_SPACE_MAX st) + 1"
  have fl: "flist (mem st) (rd st ?H) xs" using ok by (simp add: free_list_ok_def)
  from provided_policy_result [OF pol fl, of "k + SECRET_SIZE + MEM_FREE_ALL_DIFF"]
  obtain r where r: "current_fit_function st (mem st) (rd st ?H)
      (k + SECRET_SIZE + MEM_FREE_ALL_DIFF) = Some r"
    "r = 0 \<or> (\<exists>s. (r, s) \<in> set xs \<and> k + SECRET_SIZE + MEM_FREE_ALL_DIFF \<le> s)"
    by blast
  show ?thesis
  proof (cases "r = 0")
    case True
    with r(1) have "mem_alloc st k = Some (0, st)" by (simp add: mem_alloc_null)
    with ok show ?thesis by (simp add: mem_free_null free_alloc_def)
  next
    case False
    with r(2) obtain s where s: "(r, s) \<in> set xs" "k + 8 \<le> s"
      by (auto simp: consts_simps)
    from split_list [OF s(1)] obtain pre post where xs: "xs = pre @ (r, s) # post" by blast
    note ok1 = ok [unfolded xs]
    note g = free_list_okD [OF ok1]
    from g(5) have c: "chain ?lo ?hi pre" "cend ?lo pre \<le> unat r" "unat r + 16 + unat s \<le> ?hi"
      "chain (unat r + 16 + unat s + 1) ?hi post"
      by (simp_all add: chain_append)
    have e8: "unat (k + 8) = unat k + 8" using k by (simp add: unat_plus_nowrap)
    have es: "unat (k + 8) \<le> unat s" using s(2) by (simp add: word_le_nat_alt)
    from mem_alloc_result [OF ok1 r(1) s(2) k] obtain st1 where
      a: "mem_alloc st k = Some (r + 16, st1)"
      and l1: "free_list_ok st1 (if s - (k + 8) \<le> 24 then pre @ post
                   else pre @ (r + (k + 8) + 16, s - (k + 8) - 16) # post)"
      and h: "rd st1 r = (if s - (k + 8) \<le> 24 then s else k + 8)"
        "rd st1 (r + 8) = r XOR secret_number st1"
        "rd st1 (r + 16 + (if s - (k + 8) \<le> 24 then s else k + 8) - 8) = r XOR secret_number st1"
      and fd: "memory_area st1 = memory_area st" "MEM_SPACE_MAX st1 = MEM_SPACE_MAX st"
      by blast
    have r16: "r + 16 \<noteq> 0"
    proof -
      have "unat (r + 16) = unat r + 16" using c(3) g(3) by (simp add: unat_plus_nowrap)
      then show ?thesis by auto
    qed
    show ?thesis
    proof (cases "s - (k + 8) \<le> 24")
      case True
      have s8: "8 \<le> unat s" using es e8 by simp
      have j: "joined_right r s post = (r, s) # post"
      proof (cases post)
        case Nil
        then show ?thesis by simp
      next
        case (Cons x post')
        obtain b t where x: "x = (b, t)" by (cases x)
        from c(4) have "unat b \<noteq> unat r + 16 + unat s" by (simp add: Cons x)
        then show ?thesis by (simp add: Cons x)
      qed
      have c4: "chain (unat r + 16 + unat s) ?hi post"
        using chain_mono [OF c(4)] by simp
      from mem_free_effect [of st1 pre post r s] l1 h c fd s8 True c4
      obtain st2 where "mem_free st1 (r + 16) = Some (Inr st2)"
        "free_list_ok st2 (pre @ joined_right r s post)"
        by auto
      with a j xs r16 show ?thesis by (auto simp: free_alloc_def)
    next
      case False
      let ?nb = "r + (k + 8) + 16"
      let ?rs = "s - (k + 8) - 16"
      note sp = mem_alloc_split [OF ok1 r(1) s(2) False]
      have k8: "8 \<le> unat (k + 8)" using e8 by simp
      have b2: "unat r + 16 + unat (k + 8) \<le> ?hi"
        using c(3) es by simp
      have b3: "chain (unat r + 16 + unat (k + 8)) ?hi ((?nb, ?rs) # post)"
        using sp(3,4) by (simp add: chain_append)
      have j: "joined_right r (k + 8) ((?nb, ?rs) # post) = (r, s) # post"
        using sp(4) by (simp add: consts_simps)
      from mem_free_effect [of st1 pre "(?nb, ?rs) # post" r "k + 8"] l1 h c(2) fd k8 False b2 b3
      obtain st2 where "mem_free st1 (r + 16) = Some (Inr st2)"
        "free_list_ok st2 (pre @ joined_right r (k + 8) ((?nb, ?rs) # post))"
        by auto
      with a j xs r16 show ?thesis by (auto simp: free_alloc_def)
    qed
  qed
qed

lemma zero_heap_init_ok: "free_list_ok (mem_init zero_heap 0x1000 4096) [(0x1000, 4080)]"
  using mem_init_ok [of zero_heap "0x1000" 4096] by (simp add: zero_heap_def)

theorem free_alloc_restores_free_list_witness:
  "free_list_ok (mem_init zero_heap 0x1000 4096) [(0x1000, 4080)] \<and>
   provided_policy (current_fit_function (mem_init zero_heap 0x1000 4096)) \<and>
   (\<exists>st2. free_alloc (mem_init zero_heap 0x1000 4096) 100 = Some (Inr st2) \<and>
          free_list_ok st2 [(0x1000, 4080)])"
proof -
  have p: "provided_policy (current_fit_function (mem_init zero_heap 0x1000 4096))"
    by (simp add: provided_policy_def)
  have k: "unat (100 :: 64 word) + 8 < 2 ^ 64" by simp
  from free_alloc_restores_free_list [OF zero_heap_init_ok p k]
  show ?thesis using zero_heap_init_ok p by blast
qed

section \<open>Shrinking a block next to a free block\<close>

text \<open>
  On an arena at \<open>0x550000001000\<close>, after three allocations of 100 bytes and the release of
  the second, the free list holds the freed block and the remainder of the arena. Resizing
  the first block to 97 bytes takes the branch of \<^verbatim>\<open>mem_realloc\<close> for a free right
  neighbour: the header of the new free block is written 3 bytes below the neighbour's
  header before \<^verbatim>\<open>remove_block\<close> reads the neighbour's \<^verbatim>\<open>next\<close> field, whose low five bytes
  have then been cleared.
\<close>

lemma outcome_before_resize:
  "outcome (second_freed 0x550000001000) =
     Some ([(0x55000000107C, 108), (0x550000001174, 3708)], 108, 108)"
  by code_simp

lemma outcome_after_resize:
  "outcome (resized_first 0x550000001000 97) =
     Some ([(0x550000001079, 111), (0x550000000000, 0)], 105, 108)"
  by code_simp

text \<open>
  C1 on this run: the free list is strictly ascending before the resize and not after it
  (its second block is at \<open>0x550000000000\<close>, below the first).
\<close>

theorem realloc_shrink_free_list_not_ascending:
  "free_list_ascending (second_freed 0x550000001000) = Some True \<and>
   free_list_ascending (resized_first 0x550000001000 97) = Some False"
  by (simp add: free_list_ascending_def outcome_before_resize outcome_after_resize)

text \<open>
  C2 on this run: before the resize the blocks account for the 4096 bytes of the arena;
  after it the remainder of the arena is no longer in the free list and the blocks account
  for 388 bytes.
\<close>

theorem realloc_shrink_blocks_do_not_cover:
  "covered_bytes (second_freed 0x550000001000) = Some 4096 \<and>
   covered_bytes (resized_first 0x550000001000 97) = Some 388"
  by (simp add: covered_bytes_def outcome_before_resize outcome_after_resize consts_simps)

section \<open>Traversal of the arena\<close>

lemma tiles_le: "tiles st lo bs hi \<Longrightarrow> lo \<le> hi"
proof (induction bs arbitrary: lo)
  case Nil
  then show ?case by simp
next
  case (Cons b bs)
  obtain a s fr where b: "b = (a, s, fr)" by (cases b)
  from Cons.prems have "tiles st (lo + 16 + unat s) bs hi" by (simp add: b)
  from Cons.IH [OF this] show ?case by simp
qed

lemma tiles_first_free:
  "tiles st lo bs hi \<Longrightarrow> frees bs = (f, t) # fs \<Longrightarrow> lo \<le> unat f"
proof (induction bs arbitrary: lo)
  case Nil
  then show ?case by (simp add: frees_def)
next
  case (Cons b bs)
  obtain a s fr where b: "b = (a, s, fr)" by (cases b)
  from Cons.prems(1) have t: "unat a = lo" "tiles st (lo + 16 + unat s) bs hi"
    by (simp_all add: b)
  show ?case
  proof (cases fr)
    case True
    with Cons.prems(2) have "f = a" by (simp add: b frees_def is_free_block_def)
    with t show ?thesis by simp
  next
    case False
    with Cons.prems(2) have "frees bs = (f, t) # fs" by (simp add: b frees_def is_free_block_def)
    from Cons.IH [OF t(2) this] show ?thesis by simp
  qed
qed

lemma show_loops:
  assumes hi: "unat (MEM_SPACE_MAX st) + 1 < 2 ^ 64"
  shows "tiles st lo bs (unat (MEM_SPACE_MAX st) + 1) \<Longrightarrow> 0 < lo \<Longrightarrow> unat cur = lo \<Longrightarrow>
     flist (mem st) nf (frees bs) \<Longrightarrow>
     (\<exists>fin. show_allocated st nf cur =
              Some (map visit_of (takeWhile (\<lambda>b. \<not> is_free_block b) bs), fin)) \<and>
     show_free st nf = Some (map visit_of (dropWhile (\<lambda>b. \<not> is_free_block b) bs))"
proof (induction bs arbitrary: lo cur nf)
  case Nil
  then have nf: "nf = 0" and c: "unat cur = unat (MEM_SPACE_MAX st) + 1"
    by (simp_all add: frees_def)
  have "\<not> cur < MEM_SPACE_MAX st" using c by (simp add: word_less_nat_alt)
  then have "show_allocated st nf cur = Some ([], cur)"
    by (subst show_allocated.simps) simp
  moreover have "show_free st nf = Some []"
    using nf by (subst show_free.simps) simp
  ultimately show ?case by simp
next
  case (Cons b bs)
  obtain a s fr where b: "b = (a, s, fr)" by (cases b)
  let ?hi = "unat (MEM_SPACE_MAX st) + 1"
  from Cons.prems(1) have t: "unat a = lo" "rd st a = s" "tiles st (lo + 16 + unat s) bs ?hi"
    by (simp_all add: b)
  have ca: "cur = a" using Cons.prems(3) t(1) by (simp add: word_unat_eq_iff)
  from tiles_le [OF t(3)] have le: "lo + 16 + unat s \<le> ?hi" .
  have nx: "unat (a + MEM_ALL_BLOCK_SIZE + s) = lo + 16 + unat s"
    using le hi t(1) by (simp add: unat_plus_nowrap consts_simps)
  have amax: "a < MEM_SPACE_MAX st"
    using le t(1) by (simp add: word_less_nat_alt)
  have a0: "a \<noteq> 0" using t(1) Cons.prems(2) by auto
  have lo': "0 < lo + 16 + unat s" by simp
  show ?case
  proof (cases fr)
    case False
    have fb: "frees (b # bs) = frees bs" using False by (simp add: b frees_def is_free_block_def)
    have ne: "a \<noteq> nf"
    proof (cases "frees bs")
      case Nil
      with Cons.prems(4) fb a0 show ?thesis by simp
    next
      case (Cons x fs)
      obtain f u where x: "x = (f, u)" by (cases x)
      from tiles_first_free [OF t(3) Cons [unfolded x]] have "lo + 16 + unat s \<le> unat f" .
      moreover from Cons.prems(4) fb Cons x have "nf = f" by simp
      ultimately show ?thesis using t(1) by auto
    qed
    from Cons.IH [OF t(3) lo' nx, of nf] Cons.prems(4) fb obtain fin where
      ih: "show_allocated st nf (a + MEM_ALL_BLOCK_SIZE + s) =
             Some (map visit_of (takeWhile (\<lambda>b. \<not> is_free_block b) bs), fin)"
          "show_free st nf = Some (map visit_of (dropWhile (\<lambda>b. \<not> is_free_block b) bs))"
      by auto
    have "show_allocated st nf cur =
            Some (visit_of b # map visit_of (takeWhile (\<lambda>b. \<not> is_free_block b) bs), fin)"
      using ne amax ih(1) t(2) False
      by (subst show_allocated.simps) (simp add: ca b visit_of_def)
    then show ?thesis
      using ih(2) False by (simp add: b is_free_block_def)
  next
    case True
    have fb: "frees (b # bs) = (a, s) # frees bs"
      using True by (simp add: b frees_def is_free_block_def)
    from Cons.prems(4) have n: "nf = a" "flist (mem st) (rd st (a + off_next)) (frees bs)"
      by (simp_all add: fb rd_def)
    from Cons.IH [OF t(3) lo' nx n(2)] obtain fin where
      ih: "show_allocated st (rd st (a + off_next)) (a + MEM_ALL_BLOCK_SIZE + s) =
             Some (map visit_of (takeWhile (\<lambda>b. \<not> is_free_block b) bs), fin)"
          "show_free st (rd st (a + off_next)) =
             Some (map visit_of (dropWhile (\<lambda>b. \<not> is_free_block b) bs))"
      by auto
    have sa: "show_allocated st nf cur = Some ([], cur)"
      using n(1) ca by (subst show_allocated.simps) simp
    have "show_free st a =
            Some (visit_of b # map visit_of (takeWhile (\<lambda>b. \<not> is_free_block b) bs)
                   @ map visit_of (dropWhile (\<lambda>b. \<not> is_free_block b) bs))"
      using a0 ih t(2) True
      by (subst show_free.simps) (simp add: b visit_of_def consts_simps)
    then have "show_free st nf = Some (map visit_of (b # bs))"
      using n(1) by (simp flip: map_append)
    then show ?thesis
      using sa True by (simp add: b is_free_block_def)
  qed
qed

lemma tiles_block_ranges:
  "tiles st lo bs hi \<Longrightarrow> ranges_tile lo (map block_range (map visit_of bs)) hi"
proof (induction bs arbitrary: lo)
  case Nil
  then show ?case by simp
next
  case (Cons b bs)
  obtain a s fr where b: "b = (a, s, fr)" by (cases b)
  from Cons.prems have t: "unat a = lo" "tiles st (lo + 16 + unat s) bs hi"
    by (simp_all add: b)
  have r: "block_range (visit_of b) = (lo, unat s + 16)"
    using t(1) by (simp add: b block_range_def visit_of_def consts_simps)
  have e: "lo + (unat s + 16) = lo + 16 + unat s" by simp
  show ?case
    using Cons.IH [OF t(2)] by (simp add: r e del: add.commute)
qed

text \<open>
  C8 as stated fails: on the initial heap of 4096 bytes the single visit reports the size
  4072, so the range of that size plus the header, taken from the start of the block, ends
  8 bytes before the end of the arena.
\<close>

theorem mem_show_ranges_counterexample:
  "\<not> covers_as_claimed (mem_init zero_heap 0x1000 4096)"
proof -
  have "mem_show (mem_init zero_heap 0x1000 4096) = Some [(0x1010, 4072, 1)]"
    using mem_show_init [of "0x1000" zero_heap 4096]
    by (simp add: zero_heap_def disj8_def)
  then show ?thesis
    by (simp add: covers_as_claimed_def claimed_range_def consts_simps)
qed

text \<open>
  C8, amended. When the arena is tiled by the blocks \<open>bs\<close> and the free list consists of
  the free ones among them, \<^verbatim>\<open>mem_show\<close> returns and calls the visitor once per block, in
  the order of the blocks, with the payload address, the size field minus 8 and the free
  flag; the ranges from the start of each visited block over header, reported size and the
  8 bytes of the guard follow one another from the start to the end of the arena.
\<close>

theorem mem_show_visits_blocks:
  assumes "heap_layout st bs"
  shows "mem_show st = Some (map visit_of bs) \<and>
         ranges_tile (unat (memory_area st)) (map block_range (map visit_of bs))
           (unat (MEM_SPACE_MAX st) + 1)"
proof -
  from assms have h: "0 < unat (memory_area st)" "unat (MEM_SPACE_MAX st) + 1 < 2 ^ 64"
    "tiles st (unat (memory_area st)) bs (unat (MEM_SPACE_MAX st) + 1)"
    "flist (mem st) (rd st (free_block_list_addr st)) (frees bs)"
    by (simp_all add: heap_layout_def)
  from show_loops [OF h(2) h(3) h(1) refl h(4)] obtain fin where
    "show_allocated st (rd st (free_block_list_addr st)) (memory_area st) =
       Some (map visit_of (takeWhile (\<lambda>b. \<not> is_free_block b) bs), fin)"
    "show_free st (rd st (free_block_list_addr st)) =
       Some (map visit_of (dropWhile (\<lambda>b. \<not> is_free_block b) bs))"
    by auto
  then have "mem_show st = Some (map visit_of bs)"
    by (simp add: mem_show_def flip: map_append)
  with tiles_block_ranges [OF h(3)] show ?thesis by simp
qed

lemma zero_heap_init_layout:
  "heap_layout (mem_init zero_heap 0x1000 4096) [(0x1000, 4080, True)]"
proof -
  have d: "disj8 (free_block_list_addr zero_heap) 0x1000"
    "disj8 (free_block_list_addr zero_heap) (0x1000 + 8)"
    by (simp_all add: zero_heap_def disj8_def)
  have r: "rd (mem_init zero_heap 0x1000 4096) 0x1000 = 4080"
    using mem_init_reads(2) [OF d, of 4096] by simp
  have "flist (mem (mem_init zero_heap 0x1000 4096))
          (rd (mem_init zero_heap 0x1000 4096) (free_block_list_addr zero_heap))
          [(0x1000, 4080)]"
    using zero_heap_init_ok by (simp add: free_list_ok_def)
  then show ?thesis
    using r by (simp add: heap_layout_def frees_def is_free_block_def)
qed

theorem mem_show_visits_blocks_witness:
  "heap_layout (mem_init zero_heap 0x1000 4096) [(0x1000, 4080, True)] \<and>
   mem_show (mem_init zero_heap 0x1000 4096) = Some [(0x1010, 4072, 1)] \<and>
   ranges_tile 0x1000 [(0x1000, 4096)] 0x2000"
  using mem_show_visits_blocks [OF zero_heap_init_layout] zero_heap_init_layout
  by (simp add: visit_of_def block_range_def consts_simps)

section \<open>Which bytes the operations write\<close>

lemma store64_byte: "\<not> in_cell x c \<Longrightarrow> store64 m c v x = m x"
  by (simp add: store64_def in_cell_def)

lemma load64_bytes_eq:
  assumes "\<And>i. i < 8 \<Longrightarrow> m' (a + i) = m (a + i)"
  shows "load64 m' a = load64 m a"
proof -
  have "m' (a + 0) = m (a + 0)" by (rule assms) simp
  moreover have "m' (a + 1) = m (a + 1)" "m' (a + 2) = m (a + 2)" "m' (a + 3) = m (a + 3)"
    "m' (a + 4) = m (a + 4)" "m' (a + 5) = m (a + 5)" "m' (a + 6) = m (a + 6)"
    "m' (a + 7) = m (a + 7)"
    by (rule assms, simp)+
  ultimately show ?thesis by (simp add: load64_def)
qed

lemma disj8_not_in_cell: "disj8 c d \<Longrightarrow> i < 8 \<Longrightarrow> \<not> in_cell (c + i) d"
  using disj8_shift [of d c i] by (simp add: in_cell_def disj8_sym)

lemma in_cell_nat:
  fixes x c :: "64 word"
  assumes "unat c + 8 \<le> 2 ^ 64" "unat x < unat c \<or> unat c + 8 \<le> unat x"
  shows "\<not> in_cell x c"
proof -
  have xb: "unat x < 2 ^ 64" using unsigned_less [of x] by simp
  have "8 \<le> unat (x - c)"
  proof (cases "unat c \<le> unat x")
    case True
    then have "unat (x - c) = unat x - unat c" by (simp add: unat_sub word_le_nat_alt)
    with assms(2) True show ?thesis by simp
  next
    case False
    then have "unat (x - c) = unat x + 2 ^ 64 - unat c"
      using unat_sub_if_size [of x c] by (simp add: word_size)
    with assms(1) show ?thesis by simp
  qed
  then show ?thesis by (simp add: in_cell_def word_less_nat_alt)
qed

lemma remove_block_bytes:
  "\<not> in_cell x l \<Longrightarrow> \<not> in_cell x (b + off_next) \<Longrightarrow>
   mem (remove_block st b l) x = mem st x"
  by (simp add: remove_block_def Let_def store64_byte)

lemma insert_block_bytes:
  assumes "\<not> in_cell x b" "\<not> in_cell x (b + off_next)" "\<not> in_cell x l"
    and "memory_area st \<le> l - off_next \<Longrightarrow> \<not> in_cell x (l - off_next)"
  shows "mem (insert_block st b l) x = mem st x"
  using assms
  by (simp add: insert_block_def Let_def store64_byte)

lemma memcpy_outside: "\<not> x - dst < n \<Longrightarrow> memcpy m dst src n x = m x"
  by (simp add: memcpy_def)

lemma memcpy_inside: "i < n \<Longrightarrow> memcpy m dst src n (dst + i) = m (src + i)"
  by (simp add: memcpy_def)

section \<open>\<^verbatim>\<open>mem_realloc\<close>: growing by relocation\<close>

lemma fseg_take_drop:
  "fseg m p xs 0 \<Longrightarrow>
   \<exists>q. fseg m p (takeWhile P xs) q \<and> fseg m q (dropWhile P xs) 0"
  using fseg_append [of m p "takeWhile P xs" "dropWhile P xs" 0] by simp

lemma search_block_any:
  fixes R :: addr
  assumes "fseg m (load64 m H) xs 0"
  defines "pre \<equiv> takeWhile (\<lambda>b. fst b < R) xs"
  defines "post \<equiv> dropWhile (\<lambda>b. fst b < R) xs"
  shows "search_block m R H = Some (slot_after H pre)"
    and "load64 m (slot_after H pre) = (case post of [] \<Rightarrow> 0 | b # _ \<Rightarrow> fst b)"
    and "case post of [] \<Rightarrow> True | b # _ \<Rightarrow> load64 m (fst b) = snd b"
proof -
  from fseg_take_drop [OF assms(1), of "\<lambda>b. fst b < R"] obtain q where
    q: "fseg m (load64 m H) pre q" "fseg m q post 0"
    by (auto simp: pre_def post_def)
  have pl: "\<forall>x\<in>set pre. fst x < R"
    by (auto simp: pre_def dest: set_takeWhileD)
  have qv: "q = (case post of [] \<Rightarrow> 0 | b # _ \<Rightarrow> fst b)"
    using q(2) by (cases post) auto
  have "q = 0 \<or> \<not> q < R"
  proof (cases post)
    case Nil
    with qv show ?thesis by simp
  next
    case (Cons b post')
    then have "\<not> fst b < R"
      using hd_dropWhile [of "\<lambda>b. fst b < R" xs] by (simp add: post_def)
    with qv Cons show ?thesis by simp
  qed
  from search_block_slot [OF q(1) pl this]
  show "search_block m R H = Some (slot_after H pre)" .
  show "load64 m (slot_after H pre) = (case post of [] \<Rightarrow> 0 | b # _ \<Rightarrow> fst b)"
    using fseg_slot [OF q(1)] qv by simp
  show "case post of [] \<Rightarrow> True | b # _ \<Rightarrow> load64 m (fst b) = snd b"
    using q(2) by (cases post) auto
qed

lemma allocated_blockD:
  assumes "allocated_block st xs p psz"
  shows "unat (memory_area st) \<le> unat p"
    and "unat p + 16 + unat psz \<le> unat (MEM_SPACE_MAX st) + 1"
    and "8 \<le> unat psz"
    and "rd st p = psz"
    and "rd st (p + 8) = p XOR secret_number st"
    and "rd st (p + 16 + psz - 8) = p XOR secret_number st"
    and "\<And>b t. (b, t) \<in> set xs \<Longrightarrow>
           unat b + 16 + unat t \<le> unat p \<or> unat p + 16 + unat psz \<le> unat b"
  using assms by (auto simp: allocated_block_def consts_simps list_all_iff)

lemma zone_checks:
  assumes ok: "free_list_ok st xs" and blk: "allocated_block st xs p psz"
  shows "p + 16 \<noteq> 0" "\<not> p + 16 < MEM_SPACE_MIN st" "\<not> p + 16 \<ge> MEM_SPACE_MAX st"
    "p + 16 - 16 = p"
proof -
  note g = free_list_okD [OF ok]
  note b = allocated_blockD [OF blk]
  have p16: "unat (p + 16) = unat p + 16"
    using b(2) g(3) by (simp add: unat_plus_nowrap)
  have B16: "unat (memory_area st + 16) = unat (memory_area st) + 16"
    using b(1,2) g(3) by (simp add: unat_plus_nowrap)
  show "p + 16 \<noteq> 0" using p16 by auto
  show "\<not> p + 16 < MEM_SPACE_MIN st"
    using g(6) B16 p16 b(1) by (simp add: word_less_nat_alt)
  show "\<not> p + 16 \<ge> MEM_SPACE_MAX st"
    using p16 b(2,3) by (simp add: word_le_nat_alt)
  show "p + 16 - 16 = p" by simp
qed

text \<open>In the setting of the claim \<^verbatim>\<open>mem_realloc\<close> reduces to its relocation branch.\<close>

lemma mem_realloc_relocates:
  assumes ok: "free_list_ok st xs" and blk: "allocated_block st xs p psz"
    and k: "unat k + 8 < 2 ^ 64" and grow: "psz < k + 8"
    and cg: "cannot_grow_in_place xs p psz (k + 8)"
  shows "mem_realloc st (p + 16) k =
           (case mem_alloc st k of
              None \<Rightarrow> None
            | Some (result, s1) \<Rightarrow>
                if result = 0 then Some (Inr (0, s1))
                else
                  (case mem_free (s1\<lparr>mem := memcpy (mem s1) result (p + 16) (rd s1 p - 8)\<rparr>)
                          (p + 16) of
                     None \<Rightarrow> None
                   | Some (Inl e) \<Rightarrow> Some (Inl e)
                   | Some (Inr s3) \<Rightarrow> Some (Inr (result, s3))))"
proof -
  let ?H = "free_block_list_addr st"
  let ?R = "p + psz + 16"
  let ?pre = "takeWhile (\<lambda>b. fst b < ?R) xs"
  let ?post = "dropWhile (\<lambda>b. fst b < ?R) xs"
  note g = free_list_okD [OF ok]
  note b = allocated_blockD [OF blk]
  note z = zone_checks [OF ok blk]
  note sb = search_block_any [OF g(4), of ?R]
  have k0: "k \<noteq> 0"
  proof
    assume "k = 0"
    with grow have "unat psz < 8" by (simp add: word_less_nat_alt)
    with b(3) show False by simp
  qed
  have ne: "k + 8 \<noteq> psz" using grow by auto
  have nl: "\<not> k + 8 < psz" using grow by auto
  have cond: "?R \<noteq> rd st (slot_after ?H ?pre) \<or> rd st ?R + 16 < k + 8 - psz"
  proof (cases ?post)
    case Nil
    have "unat ?R = unat p + unat psz + 16"
      using b(2) g(3) by (simp add: unat_plus_nowrap)
    then have "?R \<noteq> 0" by auto
    with sb(2) Nil show ?thesis by (simp add: rd_def)
  next
    case (Cons x post')
    obtain c t where x: "x = (c, t)" by (cases x)
    show ?thesis
    proof (cases "c = ?R")
      case True
      with cg Cons x have "t + 16 < k + 8 - psz"
        by (simp add: cannot_grow_in_place_def free_size_at_def consts_simps)
      moreover from sb(3) Cons x True have "rd st ?R = t" by (simp add: rd_def)
      ultimately show ?thesis by simp
    next
      case False
      with sb(2) Cons x show ?thesis by (auto simp: rd_def)
    qed
  qed
  have e8: "k + 8 - 8 = k" by simp
  show ?thesis
    using z k0 b(4,5,6) ne nl sb(1) cond
    by (simp add: mem_realloc_def Let_def consts_simps e8 split: option.splits sum.splits)
qed

lemma outside_extent_cell:
  fixes x c :: "64 word"
  assumes "unat x < lo \<or> hi \<le> unat x" "lo \<le> unat c" "unat c + 8 \<le> hi" "hi \<le> 2 ^ 64"
  shows "\<not> in_cell x c"
  using assms by (intro in_cell_nat) auto

lemma mem_alloc_bytes:
  assumes ok: "free_list_ok st (pre @ (a, s) # post)"
    and fit: "current_fit_function st (mem st) (rd st (free_block_list_addr st))
               (k + SECRET_SIZE + MEM_FREE_ALL_DIFF) = Some a"
    and fits: "k + 8 \<le> s"
    and res: "mem_alloc st k = Some (r, st1)"
    and x: "unat x < unat a \<or> unat a + 16 + unat s \<le> unat x"
      "\<not> in_cell x (slot_after (free_block_list_addr st) pre)"
  shows "mem st1 x = mem st x"
proof -
  let ?H = "free_block_list_addr st"
  let ?hi = "unat (MEM_SPACE_MAX st) + 1"
  note g = free_list_okD [OF ok]
  from g(5) have c: "unat a + 16 + unat s \<le> ?hi" by (simp add: chain_append)
  have a8: "unat (a + 8) = unat a + 8"
    using c g(3) by (simp add: unat_plus_nowrap)
  have ext: "unat a + 16 + unat s \<le> 2 ^ 64" using c g(3) by simp
  have ia: "\<not> in_cell x a" "\<not> in_cell x (a + 8)"
    by (rule outside_extent_cell [OF x(1) _ _ ext]; simp add: a8)+
  show ?thesis
  proof (cases "s - (k + 8) \<le> 24")
    case True
    have ts: "unat (a + 16 + s - 8) = unat a + 8 + unat s"
    proof -
      have "a + 16 + s - 8 = a + 8 + s" by simp
      moreover have "unat (a + 8 + s) = unat a + 8 + unat s"
        using c g(3) a8 by (simp add: unat_plus_nowrap)
      ultimately show ?thesis by (simp only:)
    qed
    have it: "\<not> in_cell x (a + 16 + s - 8)"
    proof (rule outside_extent_cell [OF x(1) _ _ ext])
      show "unat a \<le> unat (a + 16 + s - 8)" unfolding ts by simp
      show "unat (a + 16 + s - 8) + 8 \<le> unat a + 16 + unat s" unfolding ts by simp
    qed
    from mem_alloc_whole(1) [OF ok fit True] res
    have "mem st1 = store64 (store64 (store64
            (store64 (store64 (mem st) (slot_after ?H pre) (load64 (mem st) (a + off_next)))
               (a + off_next) 0) a s) (a + 8) (a XOR secret_number st))
            (a + 16 + s - 8) (a XOR secret_number st)"
      by auto
    then show ?thesis
      using ia it x(2) by (simp add: store64_byte off_next_def)
  next
    case False
    define e where "e = k + 8"
    define nb where "nb = a + e + 16"
    note sp = mem_alloc_split [OF ok fit fits False, folded e_def, folded nb_def]
    have nb8: "unat (nb + 8) = unat nb + 8"
      using sp(4,6) c g(3) by (simp add: unat_plus_nowrap)
    have inb: "\<not> in_cell x nb" "\<not> in_cell x (nb + 8)"
      by (rule outside_extent_cell [OF x(1) _ _ ext]; use sp(4,6) in \<open>simp add: nb8\<close>)+
    have es: "unat e \<le> unat s" using fits by (simp add: word_le_nat_alt e_def)
    have te: "unat (a + 16 + e - 8) = unat a + 8 + unat e"
    proof -
      have "a + 16 + e - 8 = a + 8 + e" by simp
      moreover have "unat (a + 8 + e) = unat a + 8 + unat e"
        using c g(3) a8 es by (simp add: unat_plus_nowrap)
      ultimately show ?thesis by (simp only:)
    qed
    have it: "\<not> in_cell x (a + 16 + e - 8)"
    proof (rule outside_extent_cell [OF x(1) _ _ ext])
      show "unat a \<le> unat (a + 16 + e - 8)" unfolding te by simp
      show "unat (a + 16 + e - 8) + 8 \<le> unat a + 16 + unat s"
        unfolding te using es by simp
    qed
    from sp(1) res
    have "mem st1 = store64 (store64 (store64
            (store64 (store64
               (store64 (store64
                  (store64 (store64 (mem st) (slot_after ?H pre) (load64 (mem st) (a + off_next)))
                     (a + off_next) 0)
                  nb (s - e - 16)) (nb + off_next) 0)
               (nb + off_next)
               (load64 (store64 (store64
                  (store64 (store64 (mem st) (slot_after ?H pre) (load64 (mem st) (a + off_next)))
                     (a + off_next) 0)
                  nb (s - e - 16)) (nb + off_next) 0)
                  (slot_after ?H pre)))
            (slot_after ?H pre) nb)
          a e) (a + 8) (a XOR secret_number st))
          (a + 16 + e - 8) (a XOR secret_number st)"
      by auto
    then show ?thesis
      using ia it inb x(2) by (simp add: store64_byte off_next_def)
  qed
qed

lemma slot_after_cases:
  "(pre = [] \<and> slot_after H pre = H) \<or>
   (\<exists>pre' q t. pre = pre' @ [(q, t)] \<and> slot_after H pre = q + off_next)"
proof (cases pre rule: rev_cases)
  case Nil
  then show ?thesis by simp
next
  case (snoc pre' x)
  then show ?thesis by (cases x) auto
qed

lemma fseg_bytes_frame:
  assumes "\<And>b t i. (b, t) \<in> set xs \<Longrightarrow> i < 16 \<Longrightarrow> m' (b + i) = m (b + i)"
  shows "fseg m' p xs q \<longleftrightarrow> fseg m p xs q"
  using assms
proof (induction xs arbitrary: p)
  case Nil
  then show ?case by simp
next
  case (Cons x xs)
  obtain b t where x: "x = (b, t)" by (cases x)
  have bt: "m' (b + i) = m (b + i)" if "i < 16" for i
    using Cons.prems [of b t i] that by (simp add: x)
  have l1: "load64 m' b = load64 m b"
  proof (rule load64_bytes_eq)
    fix i :: "64 word" assume "i < 8"
    then have "i < 16" by (simp add: word_less_nat_alt)
    then show "m' (b + i) = m (b + i)" by (rule bt)
  qed
  have l2: "load64 m' (b + 8) = load64 m (b + 8)"
  proof (rule load64_bytes_eq)
    fix i :: "64 word" assume i: "i < 8"
    then have "unat (8 + i) = 8 + unat i"
      by (simp add: unat_plus_nowrap word_less_nat_alt)
    with i have "8 + i < 16" by (simp add: word_less_nat_alt)
    from bt [OF this] show "m' (b + 8 + i) = m (b + 8 + i)" by (simp add: add.assoc)
  qed
  have "fseg m' (load64 m (b + off_next)) xs q \<longleftrightarrow> fseg m (load64 m (b + off_next)) xs q"
    using Cons.prems by (intro Cons.IH) (auto simp: x)
  then show ?case by (simp add: x l1 l2 off_next_def)
qed

text \<open>The bytes of a block's header in terms of addresses.\<close>

lemma header_byte:
  fixes b i :: "64 word"
  assumes "unat b + 16 \<le> 2 ^ 64" "i < 16"
  shows "unat (b + i) = unat b + unat i" "unat i < 16"
proof -
  show i: "unat i < 16" using assms(2) by (simp add: word_less_nat_alt)
  show "unat (b + i) = unat b + unat i"
    using assms(1) i by (simp add: unat_plus_nowrap)
qed

lemma cell_byte:
  fixes c i :: "64 word"
  assumes "unat c + 8 \<le> 2 ^ 64" "i < 8"
  shows "unat (c + i) = unat c + unat i" "unat i < 8"
proof -
  show i: "unat i < 8" using assms(2) by (simp add: word_less_nat_alt)
  show "unat (c + i) = unat c + unat i"
    using assms(1) i by (simp add: unat_plus_nowrap)
qed

text \<open>
  A cell inside the extent of an allocated block keeps its value when only bytes outside
  the extent change.
\<close>

lemma cell_kept:
  fixes c :: "64 word"
  assumes "\<And>x. lo \<le> unat x \<Longrightarrow> unat x < hi \<Longrightarrow> m' x = m x"
    and "lo \<le> unat c" "unat c + 8 \<le> hi" "hi \<le> 2 ^ 64"
  shows "load64 m' c = load64 m c"
proof (rule load64_bytes_eq)
  fix i :: "64 word" assume i: "i < 8"
  have c8: "unat c + 8 \<le> 2 ^ 64" using assms(3,4) by simp
  note cb = cell_byte [OF c8 i]
  show "m' (c + i) = m (c + i)"
    using cb assms(2,3) by (intro assms(1)) simp_all
qed

lemma block_clear_of_list:
  assumes ok: "free_list_ok st xs" and blk: "allocated_block st xs p psz"
    and x: "unat p \<le> unat x" "unat x < unat p + 16 + unat psz"
  shows "\<not> list_byte (free_block_list_addr st) xs x"
proof -
  note g = free_list_okD [OF ok]
  note b = allocated_blockD [OF blk]
  have ma: "unat (memory_area st) < 2 ^ 64"
    using unsigned_less [of "memory_area st"] by simp
  have "\<not> in_cell x (free_block_list_addr st)"
    using g(1,2) b(1) x(1) ma by (intro in_cell_nat) auto
  moreover have "\<not> in_cell x q \<and> \<not> in_cell x (q + off_next)" if "(q, t) \<in> set xs" for q t
  proof -
    from chain_members [OF g(5) that] have qb: "unat q + 16 + unat t \<le> unat (MEM_SPACE_MAX st) + 1"
      by simp
    have q8: "unat (q + 8) = unat q + 8"
      using qb g(3) by (simp add: unat_plus_nowrap)
    have out: "unat x < unat q \<or> unat q + 16 \<le> unat x"
      using b(7) [OF that] x by auto
    have "\<not> in_cell x q"
      by (rule outside_extent_cell [OF out]) (use qb g(3) in simp_all)
    moreover have "\<not> in_cell x (q + off_next)"
      unfolding off_next_def
      by (rule outside_extent_cell [OF out]) (use qb g(3) q8 in simp_all)
    ultimately show ?thesis by simp
  qed
  ultimately show ?thesis
    by (auto simp: list_byte_def list_ex_iff)
qed

lemma mem_free_returns:
  assumes ok: "free_list_ok st xs" and blk: "allocated_block st xs p psz"
  shows "\<exists>st'. mem_free st (p + 16) = Some (Inr st') \<and>
           free_block_list_addr st' = free_block_list_addr st \<and>
           (\<forall>x. \<not> in_cell x p \<and> \<not> in_cell x (p + 8) \<and>
                \<not> list_byte (free_block_list_addr st) xs x \<longrightarrow> mem st' x = mem st x)"
proof -
  let ?H = "free_block_list_addr st"
  let ?pre = "takeWhile (\<lambda>b. fst b < p) xs"
  let ?l = "slot_after ?H ?pre"
  let ?m2 = "store64 (store64 (mem st) p psz) (p + 8) 0"
  let ?st2 = "wr (wr st p psz) (p + 8) 0"
  note g = free_list_okD [OF ok]
  note b = allocated_blockD [OF blk]
  note z = zone_checks [OF ok blk]
  have p8: "unat (p + 8) = unat p + 8"
    using b(2) g(3) by (simp add: unat_plus_nowrap)
  have hb: "?m2 (q + i) = mem st (q + i)" if "(q, t) \<in> set xs" "i < 16" for q t i
  proof -
    from chain_members [OF g(5) that(1)]
    have qb: "unat q + 16 + unat t \<le> unat (MEM_SPACE_MAX st) + 1" by simp
    then have q16: "unat q + 16 \<le> 2 ^ 64" using g(3) by simp
    note hq = header_byte [OF q16 that(2)]
    have out: "unat (q + i) < unat p \<or> unat p + 16 \<le> unat (q + i)"
      using b(7) [OF that(1)] hq by auto
    have "\<not> in_cell (q + i) p"
      by (rule outside_extent_cell [OF out]) (use b(2) g(3) in simp_all)
    moreover have "\<not> in_cell (q + i) (p + 8)"
      by (rule outside_extent_cell [OF out]) (use b(2) g(3) p8 in simp_all)
    ultimately show ?thesis by (simp add: store64_byte)
  qed
  have dH: "disj8 p ?H" "disj8 (p + 8) ?H"
    using g(1,2) b(1,2) g(3) p8 by (auto intro!: disj8_natI)
  have f2: "fseg ?m2 (load64 ?m2 ?H) xs 0"
    using g(4) fseg_bytes_frame [of xs ?m2 "mem st", OF hb]
    by (simp add: load64_store64_disj dH)
  note sb = search_block_any [OF f2, of p]
  have res: "mem_free st (p + 16) = Some (Inr (insert_block ?st2 p ?l))"
    using z b(4,5,6) sb(1)
    by (simp add: mem_free_def Let_def consts_simps)
  have fr: "mem (insert_block ?st2 p ?l) x = mem st x"
    if x: "\<not> in_cell x p" "\<not> in_cell x (p + 8)" "\<not> list_byte ?H xs x" for x
  proof -
    have l: "\<not> in_cell x ?l \<and> (memory_area ?st2 \<le> ?l - off_next \<longrightarrow> \<not> in_cell x (?l - off_next))"
    proof -
      from slot_after_cases [of ?pre ?H] show ?thesis
      proof (elim disjE conjE exE)
        assume "?pre = []" "?l = ?H"
        then show ?thesis
          using x(3) prev_test_head [OF g(1,2)] by (simp add: list_byte_def)
      next
        fix pre' q t
        assume pq: "?pre = pre' @ [(q, t)]" "?l = q + off_next"
        have "(q, t) \<in> set ?pre" by (simp add: pq(1))
        then have "(q, t) \<in> set xs" by (rule set_takeWhileD [THEN conjunct1])
        with x(3) have "\<not> in_cell x q" "\<not> in_cell x (q + off_next)"
          by (auto simp: list_byte_def list_ex_iff)
        then show ?thesis by (simp add: pq(2))
      qed
    qed
    have "mem (insert_block ?st2 p ?l) x = mem ?st2 x"
      using x(1,2) l by (intro insert_block_bytes) (simp_all add: off_next_def)
    then show ?thesis using x(1,2) by (simp add: store64_byte)
  qed
  show ?thesis
    using res fr by auto
qed

lemma alloc_keeps_block:
  assumes ok: "free_list_ok st (pre @ (a, s) # post)"
    and blk: "allocated_block st (pre @ (a, s) # post) p psz"
    and fit: "current_fit_function st (mem st) (rd st (free_block_list_addr st))
               (k + SECRET_SIZE + MEM_FREE_ALL_DIFF) = Some a"
    and fits: "k + 8 \<le> s"
    and res: "mem_alloc st k = Some (r, st1)"
    and x: "unat p \<le> unat x" "unat x < unat p + 16 + unat psz"
  shows "mem st1 x = mem st x"
proof -
  let ?H = "free_block_list_addr st"
  note b = allocated_blockD [OF blk]
  have 1: "unat x < unat a \<or> unat a + 16 + unat s \<le> unat x"
    using b(7) [of a s] x by auto
  have "\<not> list_byte ?H (pre @ (a, s) # post) x"
    using block_clear_of_list [OF ok blk x] .
  then have 2: "\<not> in_cell x (slot_after ?H pre)"
    using slot_after_cases [of pre ?H]
    by (auto simp: list_byte_def list_ex_iff)
  show ?thesis
    using mem_alloc_bytes [OF ok fit fits res 1 2] .
qed

lemma in_range_nat:
  fixes x c n :: "64 word"
  assumes "unat c + unat n \<le> 2 ^ 64" "x - c < n"
  shows "unat c \<le> unat x" "unat x < unat c + unat n"
proof -
  have d: "unat (x - c) < unat n" using assms(2) by (simp add: word_less_nat_alt)
  show c: "unat c \<le> unat x"
  proof (rule ccontr)
    assume "\<not> unat c \<le> unat x"
    then have "unat (x - c) = unat x + 2 ^ 64 - unat c"
      using unat_sub_if_size [of x c] by (simp add: word_size)
    with assms(1) d show False by simp
  qed
  then have "unat (x - c) = unat x - unat c" by (simp add: unat_sub word_le_nat_alt)
  with d c show "unat x < unat c + unat n" by simp
qed

lemma list_byte_head: "i < 8 \<Longrightarrow> list_byte H xs (H + i)"
  by (simp add: list_byte_def in_cell_def)

lemma list_byte_header:
  fixes b i :: "64 word"
  assumes "(b, t) \<in> set xs" "i < 16"
  shows "list_byte H xs (b + i)"
proof (cases "i < 8")
  case True
  then have "in_cell (b + i) (fst (b, t))" by (simp add: in_cell_def)
  with assms(1) show ?thesis unfolding list_byte_def list_ex_iff by blast
next
  case False
  then have i: "8 \<le> unat i" "unat i < 16"
    using assms(2) by (simp_all add: word_less_nat_alt not_less word_le_nat_alt)
  then have "unat (i - 8) = unat i - 8" by (simp add: unat_sub word_le_nat_alt)
  with i(2) have "i - 8 < 8" by (simp add: word_less_nat_alt)
  then have "in_cell (b + i) (fst (b, t) + off_next)" by (simp add: in_cell_def off_next_def)
  with assms(1) show ?thesis unfolding list_byte_def list_ex_iff by blast
qed

lemma free_list_frame:
  assumes ok: "free_list_ok st xs"
    and fr: "\<And>x. list_byte (free_block_list_addr st) xs x \<Longrightarrow> M x = mem st x"
  shows "free_list_ok (st\<lparr>mem := M\<rparr>) xs"
proof -
  let ?H = "free_block_list_addr st"
  note g = free_list_okD [OF ok]
  have h: "load64 M ?H = load64 (mem st) ?H"
    by (rule load64_bytes_eq) (simp add: fr list_byte_head)
  have "fseg M (load64 (mem st) ?H) xs 0 \<longleftrightarrow> fseg (mem st) (load64 (mem st) ?H) xs 0"
    by (rule fseg_bytes_frame) (simp add: fr list_byte_header)
  with g(4) h have f: "fseg M (load64 M ?H) xs 0" by simp
  show ?thesis
    unfolding free_list_ok_mem_update using ok f by (simp add: free_list_ok_def)
qed

lemma allocated_block_frame:
  assumes blk: "allocated_block st xs p psz"
    and fields: "memory_area st' = memory_area st" "MEM_SPACE_MAX st' = MEM_SPACE_MAX st"
      "secret_number st' = secret_number st"
    and fr: "\<And>x. unat p \<le> unat x \<Longrightarrow> unat x < unat p + 16 + unat psz \<Longrightarrow> mem st' x = mem st x"
    and cl: "\<And>b t. (b, t) \<in> set ys \<Longrightarrow>
               unat b + 16 + unat t \<le> unat p \<or> unat p + 16 + unat psz \<le> unat b"
  shows "allocated_block st' ys p psz"
proof -
  note b = allocated_blockD [OF blk]
  have mx: "unat (MEM_SPACE_MAX st) < 2 ^ 64"
    using unsigned_less [of "MEM_SPACE_MAX st"] by simp
  have hi: "unat p + 16 + unat psz \<le> 2 ^ 64"
    using b(2) mx by simp
  have p8: "unat (p + 8) = unat p + 8" using hi by (simp add: unat_plus_nowrap)
  have t: "p + 16 + psz - 8 = p + 8 + psz" by simp
  have pt: "unat (p + 8 + psz) = unat p + 8 + unat psz"
    using hi p8 by (simp add: unat_plus_nowrap)
  have 1: "load64 (mem st') p = load64 (mem st) p"
    using hi b(3)
    by (intro cell_kept [where lo = "unat p" and hi = "unat p + 16 + unat psz"] fr) simp_all
  have 2: "load64 (mem st') (p + 8) = load64 (mem st) (p + 8)"
    using hi b(3) p8
    by (intro cell_kept [where lo = "unat p" and hi = "unat p + 16 + unat psz"] fr) simp_all
  have 3: "load64 (mem st') (p + 8 + psz) = load64 (mem st) (p + 8 + psz)"
    using hi b(3) pt
    by (intro cell_kept [where lo = "unat p" and hi = "unat p + 16 + unat psz"] fr) simp_all
  have r: "rd st' p = psz" "rd st' (p + 8) = p XOR secret_number st'"
    "rd st' (p + 16 + psz - 8) = p XOR secret_number st'"
    using b(4,5,6) 1 2 3 fields(3) by (simp_all only: rd_def t)
  have c: "list_all (\<lambda>b. unat (fst b) + 16 + unat (snd b) \<le> unat p \<or>
                    unat p + 16 + unat psz \<le> unat (fst b)) ys"
    using cl by (auto simp: list_all_iff)
  show ?thesis
    unfolding allocated_block_def
    using b(1,2,3) r c fields(1,2) by (simp add: consts_simps)
qed

lemma mem_alloc_fields:
  assumes "mem_alloc st k = Some (r, st1)"
  shows "secret_number st1 = secret_number st"
    and "current_fit_function st1 = current_fit_function st"
  using assms by (auto simp: mem_alloc_def Let_def split: option.splits if_splits)

lemma alloc_result_geometry:
  assumes ok: "free_list_ok st (pre @ (a, s) # post)"
    and fit: "current_fit_function st (mem st) (rd st (free_block_list_addr st))
               (k + SECRET_SIZE + MEM_FREE_ALL_DIFF) = Some a"
    and fits: "k + 8 \<le> s"
    and k: "unat k + 8 < 2 ^ 64"
  defines "e' \<equiv> (if s - (k + 8) \<le> 24 then s else k + 8)"
  defines "xs' \<equiv> (if s - (k + 8) \<le> 24 then pre @ post
                   else pre @ (a + (k + 8) + 16, s - (k + 8) - 16) # post)"
  shows "unat k + 8 \<le> unat e'" "unat e' \<le> unat s"
    and "\<And>b t. (b, t) \<in> set xs' \<Longrightarrow>
           unat b + 16 + unat t \<le> unat a \<or> unat a + 16 + unat e' \<le> unat b"
    and "\<And>b t. (b, t) \<in> set xs' \<Longrightarrow>
           (b, t) \<in> set (pre @ (a, s) # post) \<or>
           unat a \<le> unat b \<and> unat b + 16 + unat t \<le> unat a + 16 + unat s"
proof -
  let ?lo = "unat (memory_area st)"
  let ?hi = "unat (MEM_SPACE_MAX st) + 1"
  note g = free_list_okD [OF ok]
  have k8: "unat (k + 8) = unat k + 8" using k by (simp add: unat_plus_nowrap)
  have le: "unat k + 8 \<le> unat s" using fits k8 by (simp add: word_le_nat_alt)
  from g(5) have c1: "chain ?lo ?hi pre" and c2: "cend ?lo pre \<le> unat a"
    and c4: "chain (unat a + 16 + unat s + 1) ?hi post"
    by (simp_all add: chain_append)
  have pre: "unat b + 16 + unat t \<le> unat a" if "(b, t) \<in> set pre" for b t
    using chain_members [OF c1 that] c2 by simp
  have post: "unat a + 16 + unat s \<le> unat b" if "(b, t) \<in> set post" for b t
    using chain_members [OF c4 that] by simp
  show e1: "unat k + 8 \<le> unat e'" using le k8 by (simp add: e'_def)
  show e2: "unat e' \<le> unat s" using le k8 by (simp add: e'_def)
  have nb: "unat (a + (k + 8) + 16) = unat a + unat (k + 8) + 16"
      "unat (s - (k + 8) - 16) = unat s - unat (k + 8) - 16" "24 < unat s - unat (k + 8)"
    if "\<not> s - (k + 8) \<le> 24"
    using mem_alloc_split(4,5,6) [OF ok fit fits that] by simp_all
  show "unat b + 16 + unat t \<le> unat a \<or> unat a + 16 + unat e' \<le> unat b"
    if "(b, t) \<in> set xs'" for b t
  proof (cases "s - (k + 8) \<le> 24")
    case True
    with that pre post show ?thesis by (auto simp: xs'_def e'_def)
  next
    case False
    from that False consider "(b, t) \<in> set pre" | "(b, t) \<in> set post"
      | "b = a + (k + 8) + 16" by (auto simp: xs'_def)
    then show ?thesis
    proof cases
      case 1 then show ?thesis using pre by simp
    next
      case 2 then show ?thesis using post [OF 2] e2 by simp
    next
      case 3
      have "e' = k + 8" using False by (simp add: e'_def)
      then have "unat a + 16 + unat e' \<le> unat b"
        unfolding 3 nb(1) [OF False] by simp
      then show ?thesis by simp
    qed
  qed
  show "(b, t) \<in> set (pre @ (a, s) # post) \<or>
          unat a \<le> unat b \<and> unat b + 16 + unat t \<le> unat a + 16 + unat s"
    if "(b, t) \<in> set xs'" for b t
  proof (cases "s - (k + 8) \<le> 24")
    case True
    with that show ?thesis by (auto simp: xs'_def)
  next
    case False
    from that False consider "(b, t) \<in> set pre" | "(b, t) \<in> set post"
      | "b = a + (k + 8) + 16" "t = s - (k + 8) - 16" by (auto simp: xs'_def)
    then show ?thesis
    proof cases
      case 1 then show ?thesis by simp
    next
      case 2 then show ?thesis by simp
    next
      case 3
      have "unat a \<le> unat b \<and> unat b + 16 + unat t \<le> unat a + 16 + unat s"
        unfolding 3 nb(1,2) [OF False] using nb(3) [OF False] by simp
      then show ?thesis by simp
    qed
  qed
qed

text \<open>The size query on a block whose header and trailer carry its guard.\<close>

lemma mem_get_size_header:
  assumes "unat (memory_area st) \<le> unat p"
    and "unat p + 16 + unat n \<le> unat (MEM_SPACE_MAX st) + 1"
    and "unat (MEM_SPACE_MAX st) + 1 < 2 ^ 64"
    and "MEM_SPACE_MIN st = memory_area st + 16"
    and "8 \<le> unat n"
    and "rd st p = n" "rd st (p + 8) = p XOR secret_number st"
    and "rd st (p + 8 + n) = p XOR secret_number st"
  shows "mem_get_size st (p + 16) = Inr (n - 8)"
proof -
  have p16: "unat (p + 16) = unat p + 16"
    using assms(2,3) by (simp add: unat_plus_nowrap)
  have B16: "unat (memory_area st + 16) = unat (memory_area st) + 16"
    using assms(1,2,3) by (simp add: unat_plus_nowrap)
  have 1: "p + 16 \<noteq> 0" using p16 by auto
  have 2: "\<not> p + 16 < MEM_SPACE_MIN st"
    using assms(4) B16 p16 assms(1) by (simp add: word_less_nat_alt)
  have 3: "\<not> p + 16 \<ge> MEM_SPACE_MAX st"
    using p16 assms(2,5) by (simp add: word_le_nat_alt)
  have t: "p + 16 + n - 8 = p + 8 + n" by simp
  show ?thesis
    using 1 2 3 assms(6,7,8)
    by (simp add: mem_get_size_def Let_def consts_simps t)
qed

lemma header_finish:
  assumes "unat (memory_area s) \<le> unat p"
    and "unat p + 16 + unat n \<le> unat (MEM_SPACE_MAX s) + 1"
    and "unat (MEM_SPACE_MAX s) + 1 < 2 ^ 64"
    and "MEM_SPACE_MIN s = memory_area s + 16"
    and "8 \<le> unat n"
    and "rd s (p + 8) = p XOR secret_number s"
  defines "s' \<equiv> wr (wr s p n) (p + 8 + n) (p XOR secret_number s)"
  shows "rd s' p = n" "rd s' (p + 8) = p XOR secret_number s'"
    "rd s' (p + 8 + n) = p XOR secret_number s'"
    "mem_get_size s' (p + 16) = Inr (n - 8)"
proof -
  have hi: "unat p + 16 + unat n < 2 ^ 64" using assms(2,3) by simp
  have p8: "unat (p + 8) = unat p + 8" using hi by (simp add: unat_plus_nowrap)
  have pt: "unat (p + 8 + n) = unat p + 8 + unat n"
    using hi p8 by (simp add: unat_plus_nowrap)
  have d: "disj8 (p + 8 + n) p" "disj8 (p + 8 + n) (p + 8)" "disj8 p (p + 8)"
    using hi p8 pt assms(5) by (auto intro!: disj8_natI)
  show 1: "rd s' p = n"
    using d by (simp add: s'_def rd_wr_disj rd_wr_same)
  show 2: "rd s' (p + 8) = p XOR secret_number s'"
    using d assms(6) by (simp add: s'_def rd_wr_disj)
  show 3: "rd s' (p + 8 + n) = p XOR secret_number s'"
    by (simp add: s'_def rd_wr_same)
  show "mem_get_size s' (p + 16) = Inr (n - 8)"
    using assms(1-5) by (intro mem_get_size_header 1 2 3) (simp_all add: s'_def)
qed

lemma list_byte_nat:
  assumes lb: "list_byte H xs x" and H: "unat H + 8 \<le> 2 ^ 64"
    and hd: "\<forall>q t. (q, t) \<in> set xs \<longrightarrow> unat q + 16 \<le> 2 ^ 64"
  shows "(unat H \<le> unat x \<and> unat x < unat H + 8) \<or>
         (\<exists>q t. (q, t) \<in> set xs \<and> unat q \<le> unat x \<and> unat x < unat q + 16)"
proof -
  from lb consider "in_cell x H"
    | q t where "(q, t) \<in> set xs" "in_cell x q \<or> in_cell x (q + 8)"
    by (auto simp: list_byte_def list_ex_iff off_next_def)
  then show ?thesis
  proof cases
    case 1
    then have "x - H < 8" by (simp add: in_cell_def)
    from in_range_nat [OF _ this] H show ?thesis by simp
  next
    case 2
    from hd 2(1) have q16: "unat q + 16 \<le> 2 ^ 64" by blast
    have q8: "unat (q + 8) = unat q + 8" using q16 by (simp add: unat_plus_nowrap)
    from 2(2) have "unat q \<le> unat x \<and> unat x < unat q + 16"
    proof
      assume "in_cell x q"
      then have "x - q < 8" by (simp add: in_cell_def)
      from in_range_nat [OF _ this] q16 show ?thesis by simp
    next
      assume "in_cell x (q + 8)"
      then have "x - (q + 8) < 8" by (simp only: in_cell_def)
      from in_range_nat [OF _ this] q16 q8 show ?thesis by simp
    qed
    with 2(1) show ?thesis by blast
  qed
qed

lemma relocation_succeeds:
  assumes ok: "free_list_ok st (pre @ (a, s) # post)"
    and blk: "allocated_block st (pre @ (a, s) # post) p psz"
    and fit: "current_fit_function st (mem st) (rd st (free_block_list_addr st))
               (k + SECRET_SIZE + MEM_FREE_ALL_DIFF) = Some a"
    and fits: "k + 8 \<le> s"
    and k: "unat k + 8 < 2 ^ 64" and grow: "psz < k + 8"
  shows "\<exists>st1 st3. mem_alloc st k = Some (a + 16, st1) \<and> a + 16 \<noteq> 0 \<and> rd st1 p = psz \<and>
           mem_free (st1\<lparr>mem := memcpy (mem st1) (a + 16) (p + 16) (psz - 8)\<rparr>) (p + 16)
             = Some (Inr st3) \<and>
           (\<forall>i. i < psz - 8 \<longrightarrow> mem st3 (a + 16 + i) = mem st (p + 16 + i)) \<and>
           (\<exists>n. mem_get_size st3 (a + 16) = Inr n \<and> unat k \<le> unat n \<and> unat n \<le> unat k + 24)"
proof -
  let ?H = "free_block_list_addr st"
  let ?hi = "unat (MEM_SPACE_MAX st) + 1"
  define e' where "e' = (if s - (k + 8) \<le> 24 then s else k + 8)"
  define xs' where "xs' = (if s - (k + 8) \<le> 24 then pre @ post
                           else pre @ (a + (k + 8) + 16, s - (k + 8) - 16) # post)"
  note g = free_list_okD [OF ok]
  note b = allocated_blockD [OF blk]
  note geo = alloc_result_geometry [OF ok fit fits k, folded e'_def xs'_def]
  from mem_alloc_result [OF ok fit fits k, folded e'_def xs'_def] obtain st1 where
    al: "mem_alloc st k = Some (a + 16, st1)" and ok1: "free_list_ok st1 xs'"
    and f1: "memory_area st1 = memory_area st" "MEM_SPACE_MAX st1 = MEM_SPACE_MAX st"
      "free_block_list_addr st1 = free_block_list_addr st"
    and f1': "MEM_SPACE_MIN st1 = MEM_SPACE_MIN st"
    and hd: "rd st1 a = e'" "rd st1 (a + 8) = a XOR secret_number st1"
      "rd st1 (a + 16 + e' - 8) = a XOR secret_number st1"
    by blast
  note sec = mem_alloc_fields(1) [OF al]
  note g1 = free_list_okD [OF ok1]
  from g(5) have as: "unat a + 16 + unat s \<le> ?hi" and alo: "unat (memory_area st) \<le> unat a"
    using cend_ge [of "unat (memory_area st)" ?hi pre] by (simp_all add: chain_append)
  have a16: "unat (a + 16) = unat a + 16" using as g(3) by (simp add: unat_plus_nowrap)
  have a0: "a + 16 \<noteq> 0"
  proof
    assume "a + 16 = 0"
    then have "unat (a + 16) = 0" by simp
    with a16 show False by simp
  qed
  have dis: "unat a + 16 + unat s \<le> unat p \<or> unat p + 16 + unat psz \<le> unat a"
    using b(7) [of a s] by simp
  have keep1: "mem st1 x = mem st x" if "unat p \<le> unat x" "unat x < unat p + 16 + unat psz" for x
    using alloc_keeps_block [OF ok blk fit fits al that] .
  have cl1: "unat q + 16 + unat t \<le> unat p \<or> unat p + 16 + unat psz \<le> unat q"
    if "(q, t) \<in> set xs'" for q t
    using geo(4) [OF that] b(7) [of q t] dis by auto
  have blk1: "allocated_block st1 xs' p psz"
    by (rule allocated_block_frame [OF blk f1(1,2) sec keep1 cl1])
  define n where "n = psz - 8"
  have un: "unat n = unat psz - 8"
    using b(3) by (simp add: n_def unat_sub word_le_nat_alt)
  have kk: "unat (k + 8) = unat k + 8" using k by (simp add: unat_plus_nowrap)
  have nk: "unat n < unat k" using grow un b(3) kk by (simp add: word_less_nat_alt)
  define M2 where "M2 = memcpy (mem st1) (a + 16) (p + 16) n"
  have rb: "unat (a + 16) + unat n \<le> 2 ^ 64"
    using a16 as g(3) geo(1,2) nk by simp
  have out2: "M2 x = mem st1 x" if "unat x < unat a + 16 \<or> unat a + 8 + unat e' \<le> unat x" for x
  proof (cases "x - (a + 16) < n")
    case True
    from in_range_nat [OF rb True] that nk geo(1) a16 show ?thesis by simp
  next
    case False
    then show ?thesis by (simp add: M2_def memcpy_outside)
  qed
  have hd1: "\<forall>q t. (q, t) \<in> set xs' \<longrightarrow> unat q + 16 \<le> 2 ^ 64"
    using chain_members [OF g1(5)] g1(3) by fastforce
  have H1: "unat (free_block_list_addr st1) + 8 \<le> unat a"
    using g(2) alo by (simp add: f1)
  have H8: "unat (free_block_list_addr st1) + 8 \<le> 2 ^ 64"
    using H1 as g(3) by simp
  have lb2: "M2 x = mem st1 x" if "list_byte (free_block_list_addr st1) xs' x" for x
  proof -
    from list_byte_nat [OF that H8 hd1] have "unat x < unat a + 16 \<or> unat a + 8 + unat e' \<le> unat x"
    proof (elim disjE conjE exE)
      assume "unat x < unat (free_block_list_addr st1) + 8"
      with H1 show ?thesis by simp
    next
      fix q t assume q: "(q, t) \<in> set xs'" "unat q \<le> unat x" "unat x < unat q + 16"
      from geo(3) [OF q(1)] q(2,3) show ?thesis by auto
    qed
    then show ?thesis by (rule out2)
  qed
  have ok2: "free_list_ok (st1\<lparr>mem := M2\<rparr>) xs'"
    by (rule free_list_frame [OF ok1 lb2])
  have keep2: "mem (st1\<lparr>mem := M2\<rparr>) x = mem st1 x"
    if "unat p \<le> unat x" "unat x < unat p + 16 + unat psz" for x
  proof -
    have "unat x < unat a + 16 \<or> unat a + 8 + unat e' \<le> unat x"
      using dis that geo(2) by auto
    then show ?thesis by (simp add: out2)
  qed
  have blk2: "allocated_block (st1\<lparr>mem := M2\<rparr>) xs' p psz"
    by (rule allocated_block_frame [OF blk1 _ _ _ keep2 cl1]) simp_all
  from mem_free_returns [OF ok2 blk2] obtain st3 where
    fr: "mem_free (st1\<lparr>mem := M2\<rparr>) (p + 16) = Some (Inr st3)"
    and by3: "\<And>x. \<not> in_cell x p \<Longrightarrow> \<not> in_cell x (p + 8) \<Longrightarrow>
                \<not> list_byte (free_block_list_addr st1) xs' x \<Longrightarrow> mem st3 x = M2 x"
    by auto
  have pe: "unat p + 16 + unat psz \<le> 2 ^ 64" using b(2) g(3) by simp
  have p8: "unat (p + 8) = unat p + 8" using pe by (simp add: unat_plus_nowrap)
  have p16: "unat (p + 16) = unat p + 16" using pe b(3) by (simp add: unat_plus_nowrap)
  have copy: "mem st3 (a + 16 + i) = mem st (p + 16 + i)" if "i < n" for i
  proof -
    let ?x = "a + 16 + i"
    have ui: "unat i < unat n" using that by (simp add: word_less_nat_alt)
    have ux: "unat ?x = unat a + 16 + unat i"
      using a16 ui rb by (simp add: unat_plus_nowrap)
    have up: "unat (p + 16 + i) = unat p + 16 + unat i"
      using p16 ui un pe by (simp add: unat_plus_nowrap)
    have xo: "unat ?x < unat p \<or> unat p + 16 \<le> unat ?x"
      using dis ux ui nk geo(1,2) by auto
    have 1: "\<not> in_cell ?x p"
      by (rule outside_extent_cell [OF xo]) (use pe in simp_all)
    have 2: "\<not> in_cell ?x (p + 8)"
      by (rule outside_extent_cell [OF xo]) (use pe p8 in simp_all)
    have 3: "\<not> list_byte (free_block_list_addr st1) xs' ?x"
    proof
      assume "list_byte (free_block_list_addr st1) xs' ?x"
      from list_byte_nat [OF this H8 hd1] show False
      proof (elim disjE conjE exE)
        assume "unat ?x < unat (free_block_list_addr st1) + 8"
        with H1 ux show False by simp
      next
        fix q t assume q: "(q, t) \<in> set xs'" "unat q \<le> unat ?x" "unat ?x < unat q + 16"
        from geo(3) [OF q(1)] q(2,3) ux ui nk geo(1) show False by auto
      qed
    qed
    have "mem st3 ?x = M2 ?x" using by3 [OF 1 2 3] .
    also have "M2 ?x = mem st1 (p + 16 + i)"
      using that by (simp only: M2_def memcpy_inside)
    also have "\<dots> = mem st (p + 16 + i)"
      using up ui un by (intro keep1) simp_all
    finally show ?thesis .
  qed
  have rp: "rd st1 p = psz" using allocated_blockD(4) [OF blk1] .
  have f3: "memory_area st3 = memory_area st" "MEM_SPACE_MAX st3 = MEM_SPACE_MAX st"
    "MEM_SPACE_MIN st3 = MEM_SPACE_MIN st" "secret_number st3 = secret_number st1"
    using mem_free_fields [OF fr] by (simp_all add: f1 f1')
  have ae: "unat a + 16 + unat e' \<le> ?hi" using as geo(2) by simp
  have aw: "unat a + 16 + unat e' \<le> 2 ^ 64" using ae g(3) by simp
  have a8: "unat (a + 8) = unat a + 8" using aw by (simp add: unat_plus_nowrap)
  have at: "unat (a + 8 + e') = unat a + 8 + unat e'"
    using aw a8 by (simp add: unat_plus_nowrap)
  have tr: "a + 16 + e' - 8 = a + 8 + e'" by simp
  have new3: "mem st3 x = mem st1 x"
    if x: "unat a \<le> unat x" "unat x < unat a + 16 + unat e'"
      "unat x < unat a + 16 \<or> unat a + 8 + unat e' \<le> unat x" for x
  proof -
    have xo: "unat x < unat p \<or> unat p + 16 \<le> unat x"
      using dis x(1,2) geo(2) by auto
    have 1: "\<not> in_cell x p"
      by (rule outside_extent_cell [OF xo]) (use pe in simp_all)
    have 2: "\<not> in_cell x (p + 8)"
      by (rule outside_extent_cell [OF xo]) (use pe p8 in simp_all)
    have 3: "\<not> list_byte (free_block_list_addr st1) xs' x"
    proof
      assume "list_byte (free_block_list_addr st1) xs' x"
      from list_byte_nat [OF this H8 hd1] show False
      proof (elim disjE conjE exE)
        assume "unat x < unat (free_block_list_addr st1) + 8"
        with H1 x(1) show False by simp
      next
        fix q t assume q: "(q, t) \<in> set xs'" "unat q \<le> unat x" "unat x < unat q + 16"
        from geo(3) [OF q(1)] q(2,3) x(1,2) show False by auto
      qed
    qed
    have "mem st3 x = M2 x" using by3 [OF 1 2 3] .
    with out2 [OF x(3)] show ?thesis by simp
  qed
  have n1: "load64 (mem st3) a = load64 (mem st1) a"
    using aw
    by (intro cell_kept [where lo = "unat a" and hi = "unat a + 16"] new3) simp_all
  have n2: "load64 (mem st3) (a + 8) = load64 (mem st1) (a + 8)"
    using aw a8
    by (intro cell_kept [where lo = "unat a" and hi = "unat a + 16"] new3) simp_all
  have n3: "load64 (mem st3) (a + 8 + e') = load64 (mem st1) (a + 8 + e')"
    using aw at
    by (intro cell_kept [where lo = "unat a + 8 + unat e'" and hi = "unat a + 16 + unat e'"] new3)
       simp_all
  have r3: "rd st3 a = e'" "rd st3 (a + 8) = a XOR secret_number st3"
    "rd st3 (a + 8 + e') = a XOR secret_number st3"
    using hd n1 n2 n3 by (simp_all add: rd_def f3 tr)
  have gs: "mem_get_size st3 (a + 16) = Inr (e' - 8)"
    using alo ae g(3,6) geo(1) r3 by (intro mem_get_size_header) (simp_all add: f3)
  have ue: "unat (e' - 8) = unat e' - 8"
    using geo(1) by (simp add: unat_sub word_le_nat_alt)
  have ds: "unat (s - (k + 8)) = unat s - unat (k + 8)"
    using fits by (simp add: unat_sub)
  have "unat e' \<le> unat k + 32"
  proof (cases "s - (k + 8) \<le> 24")
    case True
    then have "unat s - unat (k + 8) \<le> 24" using ds by (simp add: word_le_nat_alt)
    with True kk show ?thesis by (simp add: e'_def)
  next
    case False
    then show ?thesis using kk by (simp add: e'_def)
  qed
  with geo(1) ue have "unat k \<le> unat (e' - 8) \<and> unat (e' - 8) \<le> unat k + 24"
    by arith
  with gs have sz: "\<exists>n. mem_get_size st3 (a + 16) = Inr n \<and> unat k \<le> unat n \<and> unat n \<le> unat k + 24"
    by blast
  show ?thesis
    using al a0 rp fr copy sz unfolding M2_def n_def by blast
qed


lemma two_blocks_heap_reads:
  "rd two_blocks_heap 0x100 = 0x1040"
  "rd two_blocks_heap 0x1000 = 16"
  "rd two_blocks_heap 0x1008 = 0x1000 XOR 0xDEADBEEFFEEDFACE"
  "rd two_blocks_heap 0x1018 = 0x1000 XOR 0xDEADBEEFFEEDFACE"
  "rd two_blocks_heap 0x1040 = 4016"
  "rd two_blocks_heap 0x1048 = 0"
  by (simp_all add: two_blocks_heap_def rd_def load64_store64_same load64_store64_disj disj8_def)

lemma two_blocks_heap_ok: "free_list_ok two_blocks_heap [(0x1040, 4016)]"
  using two_blocks_heap_reads
  by (simp add: free_list_ok_def rd_def off_next_def consts_simps)
     (simp add: two_blocks_heap_def)

lemma two_blocks_heap_block: "allocated_block two_blocks_heap [(0x1040, 4016)] 0x1000 16"
  using two_blocks_heap_reads
  by (simp add: allocated_block_def consts_simps)
     (simp add: two_blocks_heap_def)

lemma two_blocks_heap_fit:
  "current_fit_function two_blocks_heap (mem two_blocks_heap)
     (rd two_blocks_heap (free_block_list_addr two_blocks_heap)) 28 = Some 0x1040"
proof -
  have f: "current_fit_function two_blocks_heap = mem_first_fit"
    "free_block_list_addr two_blocks_heap = 0x100"
    by (simp_all add: two_blocks_heap_def)
  show ?thesis
    unfolding f two_blocks_heap_reads(1)
    using two_blocks_heap_reads(5)
    by (subst mem_first_fit.simps) (simp add: rd_def)
qed


section \<open>The size query after \<^verbatim>\<open>mem_alloc\<close> and \<^verbatim>\<open>mem_realloc\<close>\<close>

lemma store64_keep:
  "unat c + 8 \<le> 2 ^ 64 \<Longrightarrow> unat x < unat c \<or> unat c + 8 \<le> unat x \<Longrightarrow>
   store64 m c v x = m x"
  by (simp add: store64_byte in_cell_nat)

lemma insert_block_keep:
  assumes "unat b + 16 \<le> 2 ^ 64" "unat x < unat b"
    and "\<not> in_cell x l" "memory_area s \<le> l - off_next \<Longrightarrow> \<not> in_cell x (l - off_next)"
  shows "mem (insert_block s b l) x = mem s x"
proof -
  have b8: "unat (b + 8) = unat b + 8" using assms(1) by (simp add: unat_plus_nowrap)
  have 1: "\<not> in_cell x b" using assms(1,2) by (intro in_cell_nat) simp_all
  have 2: "\<not> in_cell x (b + off_next)"
    unfolding off_next_def using assms(1,2) b8 by (intro in_cell_nat) simp_all
  show ?thesis using 1 2 assms(3,4) by (rule insert_block_bytes)
qed

lemma remove_block_keep:
  assumes "unat b + 16 \<le> 2 ^ 64" "unat x < unat b + 8 \<or> unat b + 16 \<le> unat x"
    and "\<not> in_cell x l"
  shows "mem (remove_block s b l) x = mem s x"
proof -
  have b8: "unat (b + 8) = unat b + 8" using assms(1) by (simp add: unat_plus_nowrap)
  have o: "unat x < unat (b + 8) \<or> unat (b + 8) + 8 \<le> unat x"
    using assms(2) b8 by auto
  have "\<not> in_cell x (b + off_next)"
    unfolding off_next_def using assms(1) b8 by (intro in_cell_nat o) simp
  with assms(3) show ?thesis by (rule remove_block_bytes)
qed

lemma realloc_setup:
  assumes ok: "free_list_ok st xs" and blk: "allocated_block st xs p psz"
  defines "R \<equiv> p + psz + 16"
  defines "l \<equiv> slot_after (free_block_list_addr st) (takeWhile (\<lambda>b. fst b < R) xs)"
  shows "search_block (mem st) R (free_block_list_addr st) = Some l"
    and "unat R = unat p + 16 + unat psz"
    and "\<And>x. unat p \<le> unat x \<Longrightarrow> \<not> in_cell x l"
    and "\<And>x. unat p \<le> unat x \<Longrightarrow> memory_area st \<le> l - off_next \<Longrightarrow>
           \<not> in_cell x (l - off_next)"
    and "R = rd st l \<Longrightarrow> unat R + 16 + unat (rd st R) \<le> unat (MEM_SPACE_MAX st) + 1"
proof -
  let ?H = "free_block_list_addr st"
  let ?pre = "takeWhile (\<lambda>b. fst b < R) xs"
  let ?post = "dropWhile (\<lambda>b. fst b < R) xs"
  note g = free_list_okD [OF ok]
  note b = allocated_blockD [OF blk]
  note sb = search_block_any [OF g(4), of R]
  show "search_block (mem st) R ?H = Some l" using sb(1) by (simp add: l_def)
  have pp: "unat (p + psz) = unat p + unat psz"
    using b(2) g(3) by (simp add: unat_plus_nowrap)
  show uR: "unat R = unat p + 16 + unat psz"
    unfolding R_def using b(2) g(3) pp by (simp add: unat_plus_nowrap)
  have cells: "\<not> in_cell x l \<and> (memory_area st \<le> l - off_next \<longrightarrow> \<not> in_cell x (l - off_next))"
    if x: "unat p \<le> unat x" for x
  proof -
    from slot_after_cases [of ?pre ?H] show ?thesis
    proof (elim disjE conjE exE)
      assume e: "?pre = []" "slot_after ?H ?pre = ?H"
      have ma: "unat (memory_area st) < 2 ^ 64"
        using unsigned_less [of "memory_area st"] by simp
      have "\<not> in_cell x ?H"
        using g(1,2) b(1) x ma by (intro in_cell_nat) auto
      then show ?thesis
        using prev_test_head [OF g(1,2)] e(2) by (simp add: l_def)
    next
      fix pre' q t
      assume e: "?pre = pre' @ [(q, t)]" "slot_after ?H ?pre = q + off_next"
      have m: "(q, t) \<in> set ?pre" by (simp add: e(1))
      then have qx: "(q, t) \<in> set xs" and qR: "q < R"
        by (auto dest: set_takeWhileD)
      from chain_members [OF g(5) qx] have qb: "unat q + 16 + unat t \<le> unat (MEM_SPACE_MAX st) + 1"
        by simp
      have q8: "unat (q + 8) = unat q + 8" using qb g(3) by (simp add: unat_plus_nowrap)
      from qR uR have "unat q < unat p + 16 + unat psz" by (simp add: word_less_nat_alt)
      with b(7) [OF qx] have qp: "unat q + 16 + unat t \<le> unat p" by auto
      have 1: "\<not> in_cell x (q + 8)"
        using qp x q8 qb g(3) by (intro in_cell_nat) simp_all
      have 2: "\<not> in_cell x q"
        using qp x qb g(3) by (intro in_cell_nat) simp_all
      show ?thesis using 1 2 e(2) by (simp add: l_def off_next_def)
    qed
  qed
  show "\<not> in_cell x l" if "unat p \<le> unat x" for x using cells [OF that] by simp
  show "\<not> in_cell x (l - off_next)" if "unat p \<le> unat x" "memory_area st \<le> l - off_next" for x
    using cells [OF that(1)] that(2) by simp
  show "unat R + 16 + unat (rd st R) \<le> unat (MEM_SPACE_MAX st) + 1" if "R = rd st l"
  proof (cases ?post)
    case Nil
    from uR have "R \<noteq> 0" by auto
    moreover have "load64 (mem st) l = R" using that by (simp only: rd_def)
    moreover have "load64 (mem st) l = 0" using sb(2) unfolding l_def Nil by simp
    ultimately show ?thesis by simp
  next
    case (Cons y post')
    obtain c t where y: "y = (c, t)" by (cases y)
    have lR: "load64 (mem st) l = R" using that by (simp only: rd_def)
    have "load64 (mem st) l = c" using sb(2) unfolding l_def Cons y by simp
    with lR have c: "c = R" by simp
    have "load64 (mem st) c = t" using sb(3) unfolding Cons y by simp
    with c have t: "rd st R = t" by (simp add: rd_def)
    have "y \<in> set ?post" using Cons by simp
    then have "(R, t) \<in> set xs" using y c by (auto dest: set_dropWhileD)
    from chain_members [OF g(5) this] t show ?thesis by simp
  qed
qed

text \<open>The branches of \<^verbatim>\<open>mem_realloc\<close> that keep the block in place.\<close>

lemma realloc_same:
  assumes ok: "free_list_ok st xs" and blk: "allocated_block st xs p psz"
    and k0: "k \<noteq> 0" and k: "unat k + 8 < 2 ^ 64"
  defines "R \<equiv> p + psz + 16"
  defines "l \<equiv> slot_after (free_block_list_addr st) (takeWhile (\<lambda>b. fst b < R) xs)"
  assumes c: "(k + 8) = psz"
  shows "\<exists>st'. mem_realloc st (p + 16) k = Some (Inr (p + 16, st')) \<and>
           (\<exists>n. mem_get_size st' (p + 16) = Inr n \<and> unat k \<le> unat n \<and> unat n \<le> unat k + 24)"
proof -
  let ?H = "free_block_list_addr st"
  let ?hi = "unat (MEM_SPACE_MAX st) + 1"
  let ?g = "p XOR secret_number st"
  define sz where "sz = k + 8"
  have usz: "unat sz = unat k + 8" using k by (simp add: sz_def unat_plus_nowrap)
  have sz8: "sz - 8 = k" by (simp add: sz_def)
  note g = free_list_okD [OF ok]
  note b = allocated_blockD [OF blk]
  note z = zone_checks [OF ok blk]
  note su0 = realloc_setup [OF ok blk]
  have sb: "search_block (mem st) (p + psz + 16) ?H = Some l"
    unfolding l_def R_def by (rule su0(1))
  have uR: "unat R = unat p + 16 + unat psz"
    unfolding R_def by (rule su0(2))
  have cl: "\<not> in_cell x l" if "unat p \<le> unat x" for x
    unfolding l_def R_def using that by (rule su0(3))
  have cl': "\<not> in_cell x (l - off_next)" if "unat p \<le> unat x" "memory_area st \<le> l - off_next" for x
    using that unfolding l_def R_def by (rule su0(4))
  have Rb: "unat R + 16 + unat (rd st R) \<le> ?hi" if "rd st l = R"
    using that [symmetric] unfolding l_def R_def by (rule su0(5))
  have pe: "unat p + 16 + unat psz < 2 ^ 64" using b(2) g(3) by simp
  have p8: "unat (p + 8) = unat p + 8" using pe by (simp add: unat_plus_nowrap)
  have tr: "p + 16 + psz - 8 = p + 8 + psz" by simp
  have gs: "mem_get_size st (p + 16) = Inr (psz - 8)"
    using b g(3,6) by (intro mem_get_size_header) (simp_all add: tr)
  have up8: "unat (psz - 8) = unat psz - 8"
    using b(3) by (simp add: unat_sub word_le_nat_alt)
  have cellp8: "rd s (p + 8) = ?g"
    if "\<And>x. unat p \<le> unat x \<Longrightarrow> unat x < unat p + 16 \<Longrightarrow> mem s x = mem st x" for s
  proof -
    have "load64 (mem s) (p + 8) = load64 (mem st) (p + 8)"
      using pe p8
      by (intro cell_kept [where lo = "unat p" and hi = "unat p + 16"] that) simp_all
    with b(5) show ?thesis by (simp add: rd_def)
  qed
  have cs: "sz = psz"
    using c by (simp_all add: sz_def)

  have "mem_realloc st (p + 16) k = Some (Inr (p + 16, st))"
    using z k0 b(4,5,6) cs
    by (simp add: mem_realloc_def Let_def consts_simps sz_def)
  moreover have "unat k \<le> unat (psz - 8)" "unat (psz - 8) \<le> unat k + 24"
    using cs usz up8 by simp_all
  ultimately show ?thesis using gs by blast
qed

lemma realloc_shrink_kept:
  assumes ok: "free_list_ok st xs" and blk: "allocated_block st xs p psz"
    and k0: "k \<noteq> 0" and k: "unat k + 8 < 2 ^ 64"
  defines "R \<equiv> p + psz + 16"
  defines "l \<equiv> slot_after (free_block_list_addr st) (takeWhile (\<lambda>b. fst b < R) xs)"
  assumes c: "(k + 8) < psz" "rd st l \<noteq> R" "psz - (k + 8) \<le> 24"
  shows "\<exists>st'. mem_realloc st (p + 16) k = Some (Inr (p + 16, st')) \<and>
           (\<exists>n. mem_get_size st' (p + 16) = Inr n \<and> unat k \<le> unat n \<and> unat n \<le> unat k + 24)"
proof -
  let ?H = "free_block_list_addr st"
  let ?hi = "unat (MEM_SPACE_MAX st) + 1"
  let ?g = "p XOR secret_number st"
  define sz where "sz = k + 8"
  have usz: "unat sz = unat k + 8" using k by (simp add: sz_def unat_plus_nowrap)
  have sz8: "sz - 8 = k" by (simp add: sz_def)
  note g = free_list_okD [OF ok]
  note b = allocated_blockD [OF blk]
  note z = zone_checks [OF ok blk]
  note su0 = realloc_setup [OF ok blk]
  have sb: "search_block (mem st) (p + psz + 16) ?H = Some l"
    unfolding l_def R_def by (rule su0(1))
  have uR: "unat R = unat p + 16 + unat psz"
    unfolding R_def by (rule su0(2))
  have cl: "\<not> in_cell x l" if "unat p \<le> unat x" for x
    unfolding l_def R_def using that by (rule su0(3))
  have cl': "\<not> in_cell x (l - off_next)" if "unat p \<le> unat x" "memory_area st \<le> l - off_next" for x
    using that unfolding l_def R_def by (rule su0(4))
  have Rb: "unat R + 16 + unat (rd st R) \<le> ?hi" if "rd st l = R"
    using that [symmetric] unfolding l_def R_def by (rule su0(5))
  have pe: "unat p + 16 + unat psz < 2 ^ 64" using b(2) g(3) by simp
  have p8: "unat (p + 8) = unat p + 8" using pe by (simp add: unat_plus_nowrap)
  have tr: "p + 16 + psz - 8 = p + 8 + psz" by simp
  have gs: "mem_get_size st (p + 16) = Inr (psz - 8)"
    using b g(3,6) by (intro mem_get_size_header) (simp_all add: tr)
  have up8: "unat (psz - 8) = unat psz - 8"
    using b(3) by (simp add: unat_sub word_le_nat_alt)
  have cellp8: "rd s (p + 8) = ?g"
    if "\<And>x. unat p \<le> unat x \<Longrightarrow> unat x < unat p + 16 \<Longrightarrow> mem s x = mem st x" for s
  proof -
    have "load64 (mem s) (p + 8) = load64 (mem st) (p + 8)"
      using pe p8
      by (intro cell_kept [where lo = "unat p" and hi = "unat p + 16"] that) simp_all
    with b(5) show ?thesis by (simp add: rd_def)
  qed
  have cs: "sz < psz" "rd st l \<noteq> R" "psz - sz \<le> 24"
    using c by (simp_all add: sz_def)

  have ne: "sz \<noteq> psz" using cs(1) by auto
  have "mem_realloc st (p + 16) k = Some (Inr (p + 16, st))"
    using z k0 b(4,5,6) ne cs sb
    by (simp add: mem_realloc_def Let_def consts_simps sz_def R_def)
  moreover have "unat (psz - sz) = unat psz - unat sz"
    using cs(1) by (simp add: unat_sub word_le_nat_alt word_less_nat_alt)
  then have "unat k \<le> unat (psz - 8)" "unat (psz - 8) \<le> unat k + 24"
    using cs(1,3) usz up8 by (simp_all add: word_less_nat_alt word_le_nat_alt)
  ultimately show ?thesis using gs by blast
qed

lemma realloc_shrink_split:
  assumes ok: "free_list_ok st xs" and blk: "allocated_block st xs p psz"
    and k0: "k \<noteq> 0" and k: "unat k + 8 < 2 ^ 64"
  defines "R \<equiv> p + psz + 16"
  defines "l \<equiv> slot_after (free_block_list_addr st) (takeWhile (\<lambda>b. fst b < R) xs)"
  assumes c: "(k + 8) < psz" "rd st l \<noteq> R" "\<not> psz - (k + 8) \<le> 24"
  shows "\<exists>st'. mem_realloc st (p + 16) k = Some (Inr (p + 16, st')) \<and>
           (\<exists>n. mem_get_size st' (p + 16) = Inr n \<and> unat k \<le> unat n \<and> unat n \<le> unat k + 24)"
proof -
  let ?H = "free_block_list_addr st"
  let ?hi = "unat (MEM_SPACE_MAX st) + 1"
  let ?g = "p XOR secret_number st"
  define sz where "sz = k + 8"
  have usz: "unat sz = unat k + 8" using k by (simp add: sz_def unat_plus_nowrap)
  have sz8: "sz - 8 = k" by (simp add: sz_def)
  note g = free_list_okD [OF ok]
  note b = allocated_blockD [OF blk]
  note z = zone_checks [OF ok blk]
  note su0 = realloc_setup [OF ok blk]
  have sb: "search_block (mem st) (p + psz + 16) ?H = Some l"
    unfolding l_def R_def by (rule su0(1))
  have uR: "unat R = unat p + 16 + unat psz"
    unfolding R_def by (rule su0(2))
  have cl: "\<not> in_cell x l" if "unat p \<le> unat x" for x
    unfolding l_def R_def using that by (rule su0(3))
  have cl': "\<not> in_cell x (l - off_next)" if "unat p \<le> unat x" "memory_area st \<le> l - off_next" for x
    using that unfolding l_def R_def by (rule su0(4))
  have Rb: "unat R + 16 + unat (rd st R) \<le> ?hi" if "rd st l = R"
    using that [symmetric] unfolding l_def R_def by (rule su0(5))
  have pe: "unat p + 16 + unat psz < 2 ^ 64" using b(2) g(3) by simp
  have p8: "unat (p + 8) = unat p + 8" using pe by (simp add: unat_plus_nowrap)
  have tr: "p + 16 + psz - 8 = p + 8 + psz" by simp
  have gs: "mem_get_size st (p + 16) = Inr (psz - 8)"
    using b g(3,6) by (intro mem_get_size_header) (simp_all add: tr)
  have up8: "unat (psz - 8) = unat psz - 8"
    using b(3) by (simp add: unat_sub word_le_nat_alt)
  have cellp8: "rd s (p + 8) = ?g"
    if "\<And>x. unat p \<le> unat x \<Longrightarrow> unat x < unat p + 16 \<Longrightarrow> mem s x = mem st x" for s
  proof -
    have "load64 (mem s) (p + 8) = load64 (mem st) (p + 8)"
      using pe p8
      by (intro cell_kept [where lo = "unat p" and hi = "unat p + 16"] that) simp_all
    with b(5) show ?thesis by (simp add: rd_def)
  qed
  have cs: "sz < psz" "rd st l \<noteq> R" "\<not> psz - sz \<le> 24"
    using c by (simp_all add: sz_def)

  have ne: "sz \<noteq> psz" using cs(1) by auto
  have d: "unat (psz - sz) = unat psz - unat sz"
    using cs(1) by (simp add: unat_sub word_le_nat_alt word_less_nat_alt)
  have lt: "unat sz < unat psz" using cs(1) by (simp add: word_less_nat_alt)
  have big: "24 < unat psz - unat sz"
    using cs(3) d by (simp add: word_le_nat_alt)
  define nf where "nf = p + sz + 16"
  have ps: "unat (p + sz) = unat p + unat sz" using pe lt by (simp add: unat_plus_nowrap)
  have unf: "unat nf = unat p + unat sz + 16"
    unfolding nf_def using pe lt ps by (simp add: unat_plus_nowrap)
  have nfb: "unat nf + 16 \<le> 2 ^ 64" using unf pe big by simp
  have nf8: "unat (nf + 8) = unat nf + 8" using nfb by (simp add: unat_plus_nowrap)
  define s2 where "s2 = wr (wr st nf (psz - sz - 16)) (nf + 8) 0"
  define s3 where "s3 = insert_block s2 nf l"
  define S where "S = wr (wr s3 p sz) (p + 8 + sz) (p XOR secret_number s3)"
  have mr: "mem_realloc st (p + 16) k = Some (Inr (p + 16, S))"
    using z k0 b(4,5,6) ne cs sb
    by (simp add: mem_realloc_def Let_def consts_simps sz_def R_def S_def s3_def s2_def nf_def)
  have kept: "mem s3 x = mem st x" if x: "unat p \<le> unat x" "unat x < unat p + 16" for x
  proof -
    have "mem s3 x = mem s2 x"
      unfolding s3_def using nfb x unf cl [OF x(1)] cl' [OF x(1)]
      by (intro insert_block_keep) (simp_all add: s2_def)
    also have "\<dots> = mem st x"
      unfolding s2_def using nfb nf8 x unf by (simp add: store64_keep)
    finally show ?thesis .
  qed
  have "mem_get_size S (p + 16) = Inr (sz - 8)"
    unfolding S_def using b(1,2) g(3,6) lt usz cellp8 [OF kept]
    by (intro header_finish) (simp_all add: s3_def s2_def)
  moreover have "unat k \<le> unat k \<and> unat k \<le> unat k + 24" by simp
  ultimately show ?thesis using mr unfolding sz8 by blast
qed

lemma realloc_shrink_join:
  assumes ok: "free_list_ok st xs" and blk: "allocated_block st xs p psz"
    and k0: "k \<noteq> 0" and k: "unat k + 8 < 2 ^ 64"
  defines "R \<equiv> p + psz + 16"
  defines "l \<equiv> slot_after (free_block_list_addr st) (takeWhile (\<lambda>b. fst b < R) xs)"
  assumes c: "(k + 8) < psz" "rd st l = R"
  shows "\<exists>st'. mem_realloc st (p + 16) k = Some (Inr (p + 16, st')) \<and>
           (\<exists>n. mem_get_size st' (p + 16) = Inr n \<and> unat k \<le> unat n \<and> unat n \<le> unat k + 24)"
proof -
  let ?H = "free_block_list_addr st"
  let ?hi = "unat (MEM_SPACE_MAX st) + 1"
  let ?g = "p XOR secret_number st"
  define sz where "sz = k + 8"
  have usz: "unat sz = unat k + 8" using k by (simp add: sz_def unat_plus_nowrap)
  have sz8: "sz - 8 = k" by (simp add: sz_def)
  note g = free_list_okD [OF ok]
  note b = allocated_blockD [OF blk]
  note z = zone_checks [OF ok blk]
  note su0 = realloc_setup [OF ok blk]
  have sb: "search_block (mem st) (p + psz + 16) ?H = Some l"
    unfolding l_def R_def by (rule su0(1))
  have uR: "unat R = unat p + 16 + unat psz"
    unfolding R_def by (rule su0(2))
  have cl: "\<not> in_cell x l" if "unat p \<le> unat x" for x
    unfolding l_def R_def using that by (rule su0(3))
  have cl': "\<not> in_cell x (l - off_next)" if "unat p \<le> unat x" "memory_area st \<le> l - off_next" for x
    using that unfolding l_def R_def by (rule su0(4))
  have Rb: "unat R + 16 + unat (rd st R) \<le> ?hi" if "rd st l = R"
    using that [symmetric] unfolding l_def R_def by (rule su0(5))
  have pe: "unat p + 16 + unat psz < 2 ^ 64" using b(2) g(3) by simp
  have p8: "unat (p + 8) = unat p + 8" using pe by (simp add: unat_plus_nowrap)
  have tr: "p + 16 + psz - 8 = p + 8 + psz" by simp
  have gs: "mem_get_size st (p + 16) = Inr (psz - 8)"
    using b g(3,6) by (intro mem_get_size_header) (simp_all add: tr)
  have up8: "unat (psz - 8) = unat psz - 8"
    using b(3) by (simp add: unat_sub word_le_nat_alt)
  have cellp8: "rd s (p + 8) = ?g"
    if "\<And>x. unat p \<le> unat x \<Longrightarrow> unat x < unat p + 16 \<Longrightarrow> mem s x = mem st x" for s
  proof -
    have "load64 (mem s) (p + 8) = load64 (mem st) (p + 8)"
      using pe p8
      by (intro cell_kept [where lo = "unat p" and hi = "unat p + 16"] that) simp_all
    with b(5) show ?thesis by (simp add: rd_def)
  qed
  have cs: "sz < psz" "rd st l = R"
    using c by (simp_all add: sz_def)

  have ne: "sz \<noteq> psz" using cs(1) by auto
  have lt: "unat sz < unat psz" using cs(1) by (simp add: word_less_nat_alt)
  note Rb' = Rb [OF cs(2)]
  have R16: "unat R + 16 \<le> 2 ^ 64" using Rb' g(3) by simp
  define nf where "nf = p + sz + 16"
  have ps: "unat (p + sz) = unat p + unat sz" using pe lt by (simp add: unat_plus_nowrap)
  have unf: "unat nf = unat p + unat sz + 16"
    unfolding nf_def using pe lt ps by (simp add: unat_plus_nowrap)
  have nfb: "unat nf + 16 \<le> 2 ^ 64" using unf uR R16 lt by simp
  have nf8: "unat (nf + 8) = unat nf + 8" using nfb by (simp add: unat_plus_nowrap)
  define s2 where "s2 = wr (wr st nf (rd st R + (psz - sz))) (nf + 8) 0"
  define s3 where "s3 = remove_block s2 R l"
  define s4 where "s4 = insert_block s3 nf l"
  define S where "S = wr (wr s4 p sz) (p + 8 + sz) (p XOR secret_number s4)"
  have mr: "mem_realloc st (p + 16) k = Some (Inr (p + 16, S))"
    using z k0 b(4,5,6) ne cs sb
    by (simp add: mem_realloc_def Let_def consts_simps sz_def R_def S_def s4_def s3_def s2_def
          nf_def)
  have kept: "mem s4 x = mem st x" if x: "unat p \<le> unat x" "unat x < unat p + 16" for x
  proof -
    have "mem s4 x = mem s3 x"
      unfolding s4_def using nfb x unf cl [OF x(1)] cl' [OF x(1)]
      by (intro insert_block_keep) (simp_all add: s3_def s2_def)
    also have "\<dots> = mem s2 x"
      unfolding s3_def using R16 x uR cl [OF x(1)]
      by (intro remove_block_keep) simp_all
    also have "\<dots> = mem st x"
      unfolding s2_def using nfb nf8 x unf by (simp add: store64_keep)
    finally show ?thesis .
  qed
  have "mem_get_size S (p + 16) = Inr (sz - 8)"
    unfolding S_def using b(1,2) g(3,6) lt usz cellp8 [OF kept]
    by (intro header_finish) (simp_all add: s4_def s3_def s2_def)
  moreover have "unat k \<le> unat k \<and> unat k \<le> unat k + 24" by simp
  ultimately show ?thesis using mr unfolding sz8 by blast
qed

lemma realloc_grow_absorb:
  assumes ok: "free_list_ok st xs" and blk: "allocated_block st xs p psz"
    and k0: "k \<noteq> 0" and k: "unat k + 8 < 2 ^ 64"
  defines "R \<equiv> p + psz + 16"
  defines "l \<equiv> slot_after (free_block_list_addr st) (takeWhile (\<lambda>b. fst b < R) xs)"
  assumes c: "psz < (k + 8)" "rd st l = R" "\<not> rd st R + 16 < (k + 8) - psz" "rd st R - (k + 8) + psz + 16 \<le> 24"
  shows "\<exists>st'. mem_realloc st (p + 16) k = Some (Inr (p + 16, st')) \<and>
           (\<exists>n. mem_get_size st' (p + 16) = Inr n \<and> unat k \<le> unat n \<and> unat n \<le> unat k + 24)"
proof -
  let ?H = "free_block_list_addr st"
  let ?hi = "unat (MEM_SPACE_MAX st) + 1"
  let ?g = "p XOR secret_number st"
  define sz where "sz = k + 8"
  have usz: "unat sz = unat k + 8" using k by (simp add: sz_def unat_plus_nowrap)
  have sz8: "sz - 8 = k" by (simp add: sz_def)
  note g = free_list_okD [OF ok]
  note b = allocated_blockD [OF blk]
  note z = zone_checks [OF ok blk]
  note su0 = realloc_setup [OF ok blk]
  have sb: "search_block (mem st) (p + psz + 16) ?H = Some l"
    unfolding l_def R_def by (rule su0(1))
  have uR: "unat R = unat p + 16 + unat psz"
    unfolding R_def by (rule su0(2))
  have cl: "\<not> in_cell x l" if "unat p \<le> unat x" for x
    unfolding l_def R_def using that by (rule su0(3))
  have cl': "\<not> in_cell x (l - off_next)" if "unat p \<le> unat x" "memory_area st \<le> l - off_next" for x
    using that unfolding l_def R_def by (rule su0(4))
  have Rb: "unat R + 16 + unat (rd st R) \<le> ?hi" if "rd st l = R"
    using that [symmetric] unfolding l_def R_def by (rule su0(5))
  have pe: "unat p + 16 + unat psz < 2 ^ 64" using b(2) g(3) by simp
  have p8: "unat (p + 8) = unat p + 8" using pe by (simp add: unat_plus_nowrap)
  have tr: "p + 16 + psz - 8 = p + 8 + psz" by simp
  have gs: "mem_get_size st (p + 16) = Inr (psz - 8)"
    using b g(3,6) by (intro mem_get_size_header) (simp_all add: tr)
  have up8: "unat (psz - 8) = unat psz - 8"
    using b(3) by (simp add: unat_sub word_le_nat_alt)
  have cellp8: "rd s (p + 8) = ?g"
    if "\<And>x. unat p \<le> unat x \<Longrightarrow> unat x < unat p + 16 \<Longrightarrow> mem s x = mem st x" for s
  proof -
    have "load64 (mem s) (p + 8) = load64 (mem st) (p + 8)"
      using pe p8
      by (intro cell_kept [where lo = "unat p" and hi = "unat p + 16"] that) simp_all
    with b(5) show ?thesis by (simp add: rd_def)
  qed
  have cs: "psz < sz" "rd st l = R" "\<not> rd st R + 16 < sz - psz" "rd st R - sz + psz + 16 \<le> 24"
    using c by (simp_all add: sz_def)

  have ne: "sz \<noteq> psz" using cs(1) by auto
  have nl: "\<not> sz < psz" using cs(1) by auto
  have lt: "unat psz < unat sz" using cs(1) by (simp add: word_less_nat_alt)
  define t where "t = rd st R"
  have Rb': "unat R + 16 + unat t \<le> ?hi" unfolding t_def by (rule Rb [OF cs(2)])
  have R16: "unat R + 16 \<le> 2 ^ 64" using Rb' g(3) by simp
  define s1 where "s1 = remove_block st R l"
  have kept1: "mem s1 x = mem st x" if x: "unat p \<le> unat x" "unat x < unat R + 8" for x
    unfolding s1_def using R16 x cl [OF x(1)] by (intro remove_block_keep) simp_all
  have f1: "memory_area s1 = memory_area st" "MEM_SPACE_MAX s1 = MEM_SPACE_MAX st"
    "MEM_SPACE_MIN s1 = MEM_SPACE_MIN st" "secret_number s1 = secret_number st"
    by (simp_all add: s1_def)
  have r1: "rd s1 p = psz"
  proof -
    have "load64 (mem s1) p = load64 (mem st) p"
      using uR R16
      by (intro cell_kept [where lo = "unat p" and hi = "unat R + 8"] kept1) simp_all
    with b(4) show ?thesis by (simp add: rd_def)
  qed
  have r2: "rd s1 R = t"
  proof -
    have "load64 (mem s1) R = load64 (mem st) R"
      using uR R16
      by (intro cell_kept [where lo = "unat p" and hi = "unat R + 8"] kept1) simp_all
    then show ?thesis by (simp add: rd_def t_def)
  qed
  define n' where "n' = psz + (t + 16)"
  have ut: "unat (t + 16) = unat t + 16"
    using Rb' g(3) by (simp add: unat_plus_nowrap)
  have un': "unat n' = unat psz + unat t + 16"
    unfolding n'_def using Rb' g(3) uR ut by (simp add: unat_plus_nowrap)
  have dsz: "unat (sz - psz) = unat sz - unat psz"
    using cs(1) by (simp add: unat_sub word_le_nat_alt word_less_nat_alt)
  have le: "unat sz \<le> unat n'"
    using cs(3) dsz ut un' lt by (simp add: word_less_nat_alt t_def)
  have dn: "unat (n' - sz) = unat n' - unat sz"
    using le by (simp add: unat_sub word_le_nat_alt)
  have wd: "rd st R - sz + psz + 16 = n' - sz" by (simp add: n'_def t_def)
  have kept8: "mem s1 x = mem st x" if x: "unat p \<le> unat x" "unat x < unat p + 16" for x
    using kept1 [OF x(1)] x(2) uR by simp

  have sm: "unat n' - unat sz \<le> 24"
    using cs(4) dn unfolding wd by (simp add: word_le_nat_alt)
  define S where "S = wr (wr s1 p n') (p + 8 + n') (p XOR secret_number s1)"
  have r1': "rd (remove_block st (p + psz + 16) l) p = psz"
    using r1 by (simp only: s1_def R_def)
  have r2': "rd (remove_block st (p + psz + 16) l) (p + psz + 16) = rd st (p + psz + 16)"
    using r2 by (simp only: s1_def R_def t_def)
  have mr: "mem_realloc st (p + 16) k = Some (Inr (p + 16, S))"
    using z k0 b(4,5,6) ne nl cs(2,3,4) sb
    by (simp add: mem_realloc_def Let_def consts_simps sz_def R_def S_def s1_def n'_def t_def
          r1' r2')
  have "mem_get_size S (p + 16) = Inr (n' - 8)"
    unfolding S_def using b(1,2,3) g(3,6) un' uR Rb' cellp8 [OF kept8]
    by (intro header_finish) (simp_all add: f1)
  moreover have "unat k \<le> unat n' - 8 \<and> unat n' - 8 \<le> unat k + 24"
    using le sm usz by arith
  moreover have "unat (n' - 8) = unat n' - 8"
    using un' by (simp add: unat_sub word_le_nat_alt)
  ultimately have "mem_get_size S (p + 16) = Inr (n' - 8) \<and>
      unat k \<le> unat (n' - 8) \<and> unat (n' - 8) \<le> unat k + 24"
    by simp
  then show ?thesis using mr by blast
qed

lemma realloc_grow_split:
  assumes ok: "free_list_ok st xs" and blk: "allocated_block st xs p psz"
    and k0: "k \<noteq> 0" and k: "unat k + 8 < 2 ^ 64"
  defines "R \<equiv> p + psz + 16"
  defines "l \<equiv> slot_after (free_block_list_addr st) (takeWhile (\<lambda>b. fst b < R) xs)"
  assumes c: "psz < (k + 8)" "rd st l = R" "\<not> rd st R + 16 < (k + 8) - psz" "\<not> rd st R - (k + 8) + psz + 16 \<le> 24"
  shows "\<exists>st'. mem_realloc st (p + 16) k = Some (Inr (p + 16, st')) \<and>
           (\<exists>n. mem_get_size st' (p + 16) = Inr n \<and> unat k \<le> unat n \<and> unat n \<le> unat k + 24)"
proof -
  let ?H = "free_block_list_addr st"
  let ?hi = "unat (MEM_SPACE_MAX st) + 1"
  let ?g = "p XOR secret_number st"
  define sz where "sz = k + 8"
  have usz: "unat sz = unat k + 8" using k by (simp add: sz_def unat_plus_nowrap)
  have sz8: "sz - 8 = k" by (simp add: sz_def)
  note g = free_list_okD [OF ok]
  note b = allocated_blockD [OF blk]
  note z = zone_checks [OF ok blk]
  note su0 = realloc_setup [OF ok blk]
  have sb: "search_block (mem st) (p + psz + 16) ?H = Some l"
    unfolding l_def R_def by (rule su0(1))
  have uR: "unat R = unat p + 16 + unat psz"
    unfolding R_def by (rule su0(2))
  have cl: "\<not> in_cell x l" if "unat p \<le> unat x" for x
    unfolding l_def R_def using that by (rule su0(3))
  have cl': "\<not> in_cell x (l - off_next)" if "unat p \<le> unat x" "memory_area st \<le> l - off_next" for x
    using that unfolding l_def R_def by (rule su0(4))
  have Rb: "unat R + 16 + unat (rd st R) \<le> ?hi" if "rd st l = R"
    using that [symmetric] unfolding l_def R_def by (rule su0(5))
  have pe: "unat p + 16 + unat psz < 2 ^ 64" using b(2) g(3) by simp
  have p8: "unat (p + 8) = unat p + 8" using pe by (simp add: unat_plus_nowrap)
  have tr: "p + 16 + psz - 8 = p + 8 + psz" by simp
  have gs: "mem_get_size st (p + 16) = Inr (psz - 8)"
    using b g(3,6) by (intro mem_get_size_header) (simp_all add: tr)
  have up8: "unat (psz - 8) = unat psz - 8"
    using b(3) by (simp add: unat_sub word_le_nat_alt)
  have cellp8: "rd s (p + 8) = ?g"
    if "\<And>x. unat p \<le> unat x \<Longrightarrow> unat x < unat p + 16 \<Longrightarrow> mem s x = mem st x" for s
  proof -
    have "load64 (mem s) (p + 8) = load64 (mem st) (p + 8)"
      using pe p8
      by (intro cell_kept [where lo = "unat p" and hi = "unat p + 16"] that) simp_all
    with b(5) show ?thesis by (simp add: rd_def)
  qed
  have cs: "psz < sz" "rd st l = R" "\<not> rd st R + 16 < sz - psz" "\<not> rd st R - sz + psz + 16 \<le> 24"
    using c by (simp_all add: sz_def)

  have ne: "sz \<noteq> psz" using cs(1) by auto
  have nl: "\<not> sz < psz" using cs(1) by auto
  have lt: "unat psz < unat sz" using cs(1) by (simp add: word_less_nat_alt)
  define t where "t = rd st R"
  have Rb': "unat R + 16 + unat t \<le> ?hi" unfolding t_def by (rule Rb [OF cs(2)])
  have R16: "unat R + 16 \<le> 2 ^ 64" using Rb' g(3) by simp
  define s1 where "s1 = remove_block st R l"
  have kept1: "mem s1 x = mem st x" if x: "unat p \<le> unat x" "unat x < unat R + 8" for x
    unfolding s1_def using R16 x cl [OF x(1)] by (intro remove_block_keep) simp_all
  have f1: "memory_area s1 = memory_area st" "MEM_SPACE_MAX s1 = MEM_SPACE_MAX st"
    "MEM_SPACE_MIN s1 = MEM_SPACE_MIN st" "secret_number s1 = secret_number st"
    by (simp_all add: s1_def)
  have r1: "rd s1 p = psz"
  proof -
    have "load64 (mem s1) p = load64 (mem st) p"
      using uR R16
      by (intro cell_kept [where lo = "unat p" and hi = "unat R + 8"] kept1) simp_all
    with b(4) show ?thesis by (simp add: rd_def)
  qed
  have r2: "rd s1 R = t"
  proof -
    have "load64 (mem s1) R = load64 (mem st) R"
      using uR R16
      by (intro cell_kept [where lo = "unat p" and hi = "unat R + 8"] kept1) simp_all
    then show ?thesis by (simp add: rd_def t_def)
  qed
  define n' where "n' = psz + (t + 16)"
  have ut: "unat (t + 16) = unat t + 16"
    using Rb' g(3) by (simp add: unat_plus_nowrap)
  have un': "unat n' = unat psz + unat t + 16"
    unfolding n'_def using Rb' g(3) uR ut by (simp add: unat_plus_nowrap)
  have dsz: "unat (sz - psz) = unat sz - unat psz"
    using cs(1) by (simp add: unat_sub word_le_nat_alt word_less_nat_alt)
  have le: "unat sz \<le> unat n'"
    using cs(3) dsz ut un' lt by (simp add: word_less_nat_alt t_def)
  have dn: "unat (n' - sz) = unat n' - unat sz"
    using le by (simp add: unat_sub word_le_nat_alt)
  have wd: "rd st R - sz + psz + 16 = n' - sz" by (simp add: n'_def t_def)
  have kept8: "mem s1 x = mem st x" if x: "unat p \<le> unat x" "unat x < unat p + 16" for x
    using kept1 [OF x(1)] x(2) uR by simp

  have big: "24 < unat n' - unat sz"
    using cs(4) dn unfolding wd by (simp add: word_le_nat_alt)
  define nf where "nf = p + sz + 16"
  have pb: "unat p + 16 + unat n' \<le> ?hi" using un' uR Rb' by simp
  have ps: "unat (p + sz) = unat p + unat sz"
    using pb g(3) le by (simp add: unat_plus_nowrap)
  have unf: "unat nf = unat p + unat sz + 16"
    unfolding nf_def using pb g(3) le ps by (simp add: unat_plus_nowrap)
  have nfb: "unat nf + 16 \<le> 2 ^ 64" using unf pb g(3) big by simp
  have nf8: "unat (nf + 8) = unat nf + 8" using nfb by (simp add: unat_plus_nowrap)
  define s3 where "s3 = wr (wr s1 nf (rd st R - sz + psz)) (nf + 8) 0"
  define s5 where "s5 = wr (wr s3 p sz) (p + 8 + sz) (p XOR secret_number s3)"
  define S where "S = insert_block s5 nf l"
  have r1': "rd (remove_block st (p + psz + 16) l) p = psz"
    using r1 by (simp only: s1_def R_def)
  have r2': "rd (remove_block st (p + psz + 16) l) (p + psz + 16) = rd st (p + psz + 16)"
    using r2 by (simp only: s1_def R_def t_def)
  have mr: "mem_realloc st (p + 16) k = Some (Inr (p + 16, S))"
    using z k0 b(4,5,6) ne nl cs(2,3,4) sb
    by (simp add: mem_realloc_def Let_def consts_simps sz_def R_def S_def s5_def s3_def s1_def
          nf_def r1' r2')
  have kept3: "mem s3 x = mem st x" if x: "unat p \<le> unat x" "unat x < unat p + 16" for x
  proof -
    have "mem s3 x = mem s1 x"
      unfolding s3_def using nfb nf8 x unf by (simp add: store64_keep)
    with kept8 [OF x] show ?thesis by simp
  qed
  have f3: "memory_area s3 = memory_area st" "MEM_SPACE_MAX s3 = MEM_SPACE_MAX st"
    "MEM_SPACE_MIN s3 = MEM_SPACE_MIN st" "secret_number s3 = secret_number st"
    by (simp_all add: s3_def f1)
  have szb: "unat p + 16 + unat sz \<le> ?hi" using pb le by simp
  have hf: "rd s5 p = sz" "rd s5 (p + 8) = p XOR secret_number s5"
    "rd s5 (p + 8 + sz) = p XOR secret_number s5"
    unfolding s5_def using b(1) g(3,6) szb usz cellp8 [OF kept3]
    by (intro header_finish; simp add: f3)+
  have f5: "memory_area s5 = memory_area st" "MEM_SPACE_MAX s5 = MEM_SPACE_MAX st"
    "MEM_SPACE_MIN s5 = MEM_SPACE_MIN st" "secret_number s5 = secret_number st"
    by (simp_all add: s5_def f3)
  have fS: "memory_area S = memory_area st" "MEM_SPACE_MAX S = MEM_SPACE_MAX st"
    "MEM_SPACE_MIN S = MEM_SPACE_MIN st" "secret_number S = secret_number st"
    by (simp_all add: S_def f5)
  have keptS: "mem S x = mem s5 x" if x: "unat p \<le> unat x" "unat x < unat p + 16 + unat sz" for x
    unfolding S_def using nfb x unf cl [OF x(1)] cl' [OF x(1)]
    by (intro insert_block_keep) (simp_all add: f5)
  have szw: "unat p + 16 + unat sz \<le> 2 ^ 64" using szb g(3) by simp
  have pt: "unat (p + 8 + sz) = unat p + 8 + unat sz"
    using szw p8 by (simp add: unat_plus_nowrap)
  have c1: "load64 (mem S) p = load64 (mem s5) p"
    using szw usz
    by (intro cell_kept [where lo = "unat p" and hi = "unat p + 16 + unat sz"] keptS) simp_all
  have c2: "load64 (mem S) (p + 8) = load64 (mem s5) (p + 8)"
    using szw usz p8
    by (intro cell_kept [where lo = "unat p" and hi = "unat p + 16 + unat sz"] keptS) simp_all
  have c3: "load64 (mem S) (p + 8 + sz) = load64 (mem s5) (p + 8 + sz)"
    using szw usz pt
    by (intro cell_kept [where lo = "unat p" and hi = "unat p + 16 + unat sz"] keptS) simp_all
  have rS: "rd S p = sz" "rd S (p + 8) = p XOR secret_number S"
    "rd S (p + 8 + sz) = p XOR secret_number S"
    using hf c1 c2 c3 by (simp_all add: rd_def fS f5)
  have "mem_get_size S (p + 16) = Inr (sz - 8)"
    using b(1) g(3,6) szb usz rS by (intro mem_get_size_header) (simp_all add: fS)
  moreover have "unat k \<le> unat k \<and> unat k \<le> unat k + 24" by simp
  ultimately show ?thesis using mr unfolding sz8 by blast
qed


lemma alloc_size:
  assumes ok: "free_list_ok st (pre @ (a, s) # post)"
    and fit: "current_fit_function st (mem st) (rd st (free_block_list_addr st))
               (k + SECRET_SIZE + MEM_FREE_ALL_DIFF) = Some a"
    and fits: "k + 8 \<le> s"
    and k: "unat k + 8 < 2 ^ 64"
  shows "\<exists>st1. mem_alloc st k = Some (a + 16, st1) \<and> a + 16 \<noteq> 0 \<and>
           (\<exists>n. mem_get_size st1 (a + 16) = Inr n \<and> unat k \<le> unat n \<and> unat n \<le> unat k + 24)"
proof -
  let ?hi = "unat (MEM_SPACE_MAX st) + 1"
  define e' where "e' = (if s - (k + 8) \<le> 24 then s else k + 8)"
  define xs' where "xs' = (if s - (k + 8) \<le> 24 then pre @ post
                           else pre @ (a + (k + 8) + 16, s - (k + 8) - 16) # post)"
  note g = free_list_okD [OF ok]
  note geo = alloc_result_geometry [OF ok fit fits k, folded e'_def xs'_def]
  from mem_alloc_result [OF ok fit fits k, folded e'_def xs'_def] obtain st1 where
    al: "mem_alloc st k = Some (a + 16, st1)"
    and f1: "memory_area st1 = memory_area st" "MEM_SPACE_MAX st1 = MEM_SPACE_MAX st"
      "MEM_SPACE_MIN st1 = MEM_SPACE_MIN st"
    and hd: "rd st1 a = e'" "rd st1 (a + 8) = a XOR secret_number st1"
      "rd st1 (a + 16 + e' - 8) = a XOR secret_number st1"
    by blast
  from g(5) have as: "unat a + 16 + unat s \<le> ?hi" and alo: "unat (memory_area st) \<le> unat a"
    using cend_ge [of "unat (memory_area st)" ?hi pre] by (simp_all add: chain_append)
  have a16: "unat (a + 16) = unat a + 16" using as g(3) by (simp add: unat_plus_nowrap)
  have a0: "a + 16 \<noteq> 0"
  proof
    assume "a + 16 = 0"
    then have "unat (a + 16) = 0" by simp
    with a16 show False by simp
  qed
  have ae: "unat a + 16 + unat e' \<le> ?hi" using as geo(2) by simp
  have tr: "a + 16 + e' - 8 = a + 8 + e'" by simp
  have gs: "mem_get_size st1 (a + 16) = Inr (e' - 8)"
    using alo ae g(3,6) geo(1) hd by (intro mem_get_size_header) (simp_all add: f1 tr)
  have kk: "unat (k + 8) = unat k + 8" using k by (simp add: unat_plus_nowrap)
  have ue: "unat (e' - 8) = unat e' - 8"
    using geo(1) by (simp add: unat_sub word_le_nat_alt)
  have ds: "unat (s - (k + 8)) = unat s - unat (k + 8)"
    using fits by (simp add: unat_sub)
  have "unat e' \<le> unat k + 32"
  proof (cases "s - (k + 8) \<le> 24")
    case True
    then have "unat s - unat (k + 8) \<le> 24" using ds by (simp add: word_le_nat_alt)
    with True kk show ?thesis by (simp add: e'_def)
  next
    case False
    then show ?thesis using kk by (simp add: e'_def)
  qed
  with geo(1) ue have "unat k \<le> unat (e' - 8) \<and> unat (e' - 8) \<le> unat k + 24"
    by arith
  with gs al a0 show ?thesis by blast
qed

lemma mem_realloc_relocation_branch:
  assumes ok: "free_list_ok st xs" and blk: "allocated_block st xs p psz"
    and grow: "psz < k + 8"
    and cond: "p + psz + 16 \<noteq> rd st (slot_after (free_block_list_addr st)
                   (takeWhile (\<lambda>b. fst b < p + psz + 16) xs)) \<or>
               rd st (p + psz + 16) + 16 < k + 8 - psz"
  shows "mem_realloc st (p + 16) k =
           (case mem_alloc st k of
              None \<Rightarrow> None
            | Some (result, s1) \<Rightarrow>
                if result = 0 then Some (Inr (0, s1))
                else
                  (case mem_free (s1\<lparr>mem := memcpy (mem s1) result (p + 16) (rd s1 p - 8)\<rparr>)
                          (p + 16) of
                     None \<Rightarrow> None
                   | Some (Inl e) \<Rightarrow> Some (Inl e)
                   | Some (Inr s3) \<Rightarrow> Some (Inr (result, s3))))"
proof -
  note g = free_list_okD [OF ok]
  note b = allocated_blockD [OF blk]
  note z = zone_checks [OF ok blk]
  note sb = search_block_any [OF g(4), of "p + psz + 16"]
  have k0: "k \<noteq> 0"
  proof
    assume "k = 0"
    with grow have "unat psz < 8" by (simp add: word_less_nat_alt)
    with b(3) show False by simp
  qed
  have ne: "k + 8 \<noteq> psz" using grow by auto
  have nl: "\<not> k + 8 < psz" using grow by auto
  have e8: "k + 8 - 8 = k" by simp
  show ?thesis
    using z k0 b(4,5,6) ne nl sb(1) cond
    by (simp add: mem_realloc_def Let_def consts_simps e8 split: option.splits sum.splits)
qed

lemma size_slack:
  fixes k n :: "64 word"
  assumes "unat k \<le> unat n" "unat n \<le> unat k + 24"
  shows "k \<le> n \<and> n - k \<le> MEM_MAX_BLOCK_SIZE + SECRET_SIZE"
proof -
  have le: "k \<le> n" using assms(1) by (simp add: word_le_nat_alt)
  then have "unat (n - k) = unat n - unat k" by (simp add: unat_sub)
  with assms(2) have "n - k \<le> 24" by (simp add: word_le_nat_alt)
  with le show ?thesis by (simp add: consts_simps)
qed


lemma two_blocks_heap_results:
  "map_option fst (mem_alloc two_blocks_heap 4) = Some 0x1050"
  "map_option (map_sum id fst) (mem_realloc two_blocks_heap 0x1010 4) = Some (Inr 0x1010)"
  by code_simp+


end
